theory Spec2Isabelle
  imports Main "HOL-Library.Sublist" "HOL-Library.Word"
begin

section \<open>Outcomes\<close>

text \<open>
  A Go function of this development either returns, returns an \<open>error\<close>, or panics.
  All three are values here. \<open>IndexOutOfRange\<close> is the runtime panic of an index
  expression and \<open>TypeAssertion\<close> the runtime panic of the assertion
  \<open>valRaw.(string)\<close> on a value of another type; \<open>CompileError\<close> is the error of
  \<open>regexp.Compile\<close>; \<open>ParseError\<close> is the error \<open>could not parse ... into ...\<close> of
  \<open>PathParameters\<close>. \<open>OutsideFragment\<close> is no behaviour of the program: it marks a
  pattern that the model of the \<open>regexp\<close> package below does not cover. Every
  statement about \<open>PathParameters\<close> below says which templates it is about.
\<close>

datatype failure = IndexOutOfRange | TypeAssertion | CompileError | ParseError | OutsideFragment

section \<open>The functions of Go's \<open>strings\<close> package that the code calls\<close>

text \<open>
  A string is the list of its characters. The separators the code uses
  (\<open>/\<close>, \<open>{\<close>, \<open>}\<close>) are single characters.
\<close>

text \<open>
  \<open>strings.Split(s, sep)\<close> for a one-character separator: the pieces between the
  separators, never an empty list. \<open>splitFrom\<close> carries the piece that is being read.
\<close>

primrec splitFrom :: "string \<Rightarrow> string \<Rightarrow> char \<Rightarrow> string list" where
  "splitFrom cur [] sep = [cur]"
| "splitFrom cur (c # s) sep =
     (if c = sep then cur # splitFrom [] s sep else splitFrom (cur @ [c]) s sep)"

definition Split :: "string \<Rightarrow> char \<Rightarrow> string list" where
  "Split s sep = splitFrom [] s sep"

text \<open>\<open>strings.Join(elems, sep)\<close>.\<close>

fun Join :: "string list \<Rightarrow> string \<Rightarrow> string" where
  "Join [] sep = []"
| "Join [a] sep = a"
| "Join (a # b # r) sep = a @ sep @ Join (b # r) sep"

text \<open>
  \<open>strings.FieldsFunc(s, f)\<close>: the maximal runs of characters that do not satisfy
  \<open>f\<close>, in order; empty runs are not reported. \<open>fieldsFrom\<close> carries the field that is
  being read.
\<close>

primrec fieldsFrom :: "(char \<Rightarrow> bool) \<Rightarrow> string \<Rightarrow> string \<Rightarrow> string list" where
  "fieldsFrom f cur [] = (if cur = [] then [] else [cur])"
| "fieldsFrom f cur (c # s) =
     (if f c then (if cur = [] then fieldsFrom f [] s else cur # fieldsFrom f [] s)
      else fieldsFrom f (cur @ [c]) s)"

definition FieldsFunc :: "string \<Rightarrow> (char \<Rightarrow> bool) \<Rightarrow> string list" where
  "FieldsFunc s f = fieldsFrom f [] s"

text \<open>
  \<open>strings.ReplaceAll(s, old, new)\<close>, which is \<open>strings.Replace(s, old, new, -1)\<close>:
  the non-overlapping occurrences of \<open>old\<close> are replaced from left to right. An empty
  \<open>old\<close> matches before every character and at the end.
\<close>

function ReplaceAll :: "string \<Rightarrow> string \<Rightarrow> string \<Rightarrow> string" where
  "ReplaceAll [] old new = (if old = [] then new else [])"
| "ReplaceAll (c # s) old new =
     (if old = [] then new @ c # ReplaceAll s old new
      else if prefix old (c # s) then new @ ReplaceAll (drop (length old) (c # s)) old new
      else c # ReplaceAll s old new)"
  by pat_completeness auto
termination
  by (relation "measure (\<lambda>(s, old, new). length s)") auto

text \<open>\<open>strings.HasPrefix(s, prefix)\<close>.\<close>

definition HasPrefix :: "string \<Rightarrow> string \<Rightarrow> bool" where
  "HasPrefix s p = prefix p s"

section \<open>The field lookup\<close>

text \<open>
  \<open>schema.ResourceData\<close> is read through \<open>GetOk\<close> only. A field holds a string or
  a value of another type; \<open>GetOk\<close> reports a field as set only when its value is not
  the zero value of its type, which for a string is the empty string. \<open>OtherValue\<close>
  stands for a value of another type that is not the zero value (a zero value of another
  type is a field that \<open>GetOk\<close> does not report, like a missing one).
\<close>

datatype fieldValue = StringValue string | OtherValue

type_synonym ResourceData = "string \<rightharpoonup> fieldValue"

definition GetOk :: "ResourceData \<Rightarrow> string \<Rightarrow> fieldValue option" where
  "GetOk d key =
     (case d key of
        None \<Rightarrow> None
      | Some raw \<Rightarrow>
          (case raw of
             StringValue v \<Rightarrow> if v = [] then None else Some (StringValue v)
           | OtherValue \<Rightarrow> Some OtherValue))"

section \<open>\<open>ParsePath\<close>\<close>

definition isBrace :: "char \<Rightarrow> bool" where
  "isBrace c = (c = CHR ''{'' \<or> c = CHR ''}'')"

text \<open>
  The first half of \<open>ParsePath\<close>: the value of the variable \<open>recomprised\<close> before the
  loop. \<open>fields[1] = userSuppliedPath\<close> panics when the split has one element.
\<close>

definition recomprise :: "string \<Rightarrow> string \<Rightarrow> failure + string" where
  "recomprise userSuppliedPath endpoint =
     (let fields = Split endpoint CHR ''/'' in
      if length fields \<le> 1 then Inl IndexOutOfRange
      else Inr (''/'' @ Join (drop 1 (fields[1 := userSuppliedPath])) ''/''))"

text \<open>
  The loop of \<open>ParsePath\<close> over the fields, threading \<open>recomprised\<close>. The assertion
  \<open>valRaw.(string)\<close> is not checked by the source and panics on a value that is not
  a string.
\<close>

fun ParsePath_loop :: "ResourceData \<Rightarrow> string list \<Rightarrow> string \<Rightarrow> failure + string" where
  "ParsePath_loop d [] recomprised = Inr recomprised"
| "ParsePath_loop d (field # fields) recomprised =
     (case GetOk d field of
        None \<Rightarrow> ParsePath_loop d fields recomprised
      | Some valRaw \<Rightarrow>
          (case valRaw of
             OtherValue \<Rightarrow> Inl TypeAssertion
           | StringValue val \<Rightarrow>
               ParsePath_loop d fields (ReplaceAll recomprised (''{'' @ field @ ''}'') val)))"

definition ParsePath :: "string \<Rightarrow> string \<Rightarrow> ResourceData \<Rightarrow> failure + string" where
  "ParsePath userSuppliedPath endpoint d =
     (case recomprise userSuppliedPath endpoint of
        Inl e \<Rightarrow> Inl e
      | Inr recomprised \<Rightarrow> ParsePath_loop d (FieldsFunc recomprised isBrace) recomprised)"

section \<open>The fragment of Go's \<open>regexp\<close> package that the code reaches\<close>

text \<open>
  \<open>PathParameters\<close> builds a pattern from the template and hands it to
  \<open>regexp.Compile\<close>. The package is not part of the repository; it is modelled here on
  a fragment of its syntax: alternatives separated by \<open>|\<close>, each a sequence of
  literal characters and of named groups \<open>(?P<name>.+)\<close>. Templates of the documented
  grammar produce one such alternative; a literal segment that holds a \<open>|\<close> produces
  several. Every other pattern is answered \<open>OutsideFragment\<close>.
  Patterns and paths are read character by character, which is what the package does on
  ASCII text; its limits on the size of a pattern are not modelled.
\<close>

datatype item = Lit char | Named string

type_synonym Regexp = "item list list"

text \<open>
  The characters that the parser of \<open>regexp/syntax\<close> does not read as themselves:
  \<open>( ) | ^ $ . [ * + ? { \<close> and the backslash. A plain character is any other
  ASCII character; text outside ASCII, which the package decodes as UTF-8, is left
  outside the fragment.
\<close>

definition isSpecial :: "char \<Rightarrow> bool" where
  "isSpecial c = (c \<in> set ''()|^$.[*+?{'' \<or> c = CHR 0x5C)"

definition isPlain :: "char \<Rightarrow> bool" where
  "isPlain c = (\<not> isSpecial c \<and> \<not> digit7 c)"

text \<open>\<open>isValidCaptureName\<close> of \<open>regexp/syntax\<close>: \<open>[A-Za-z0-9_]+\<close>.\<close>

definition isalnum :: "char \<Rightarrow> bool" where
  "isalnum c =
     (c \<in> set ''0123456789'' \<or> c \<in> set ''ABCDEFGHIJKLMNOPQRSTUVWXYZ''
      \<or> c \<in> set ''abcdefghijklmnopqrstuvwxyz'')"

definition isValidCaptureName :: "string \<Rightarrow> bool" where
  "isValidCaptureName name = (name \<noteq> [] \<and> list_all (\<lambda>c. c = CHR ''_'' \<or> isalnum c) name)"

text \<open>
  \<open>regexp.Compile\<close>. After \<open>(?P<\<close> the parser takes the name up to the next \<open>>\<close>;
  a missing \<open>>\<close> or an invalid name is an error whatever follows. A \<open>|\<close> outside a
  group begins a new alternative. A group whose body is not \<open>.+\<close>, and any other
  use of a special character, is outside the fragment. \<open>addItem\<close> puts an item in
  front of the first alternative.
\<close>

definition addItem :: "item \<Rightarrow> Regexp \<Rightarrow> Regexp" where
  "addItem it alts = (case alts of [] \<Rightarrow> [[it]] | a # r \<Rightarrow> (it # a) # r)"

function Compile :: "string \<Rightarrow> failure + Regexp" where
  "Compile [] = Inr [[]]"
| "Compile (c # s) =
     (if c = CHR ''('' \<and> prefix ''?P<'' s then
        (let t = drop 3 s; name = takeWhile (\<lambda>x. x \<noteq> CHR ''>'') t;
             body = drop 1 (dropWhile (\<lambda>x. x \<noteq> CHR ''>'') t) in
         if CHR ''>'' \<notin> set t then Inl CompileError
         else if \<not> isValidCaptureName name then Inl CompileError
         else if prefix ''.+)'' body then
           (case Compile (drop 3 body) of
              Inl e \<Rightarrow> Inl e
            | Inr re \<Rightarrow> Inr (addItem (Named name) re))
         else Inl OutsideFragment)
      else if c = CHR ''|'' then
        (case Compile s of Inl e \<Rightarrow> Inl e | Inr re \<Rightarrow> Inr ([] # re))
      else if isPlain c then
        (case Compile s of Inl e \<Rightarrow> Inl e | Inr re \<Rightarrow> Inr (addItem (Lit c) re))
      else Inl OutsideFragment)"
  by pat_completeness auto
termination
proof (relation "measure length", goal_cases)
  case (2 c s t name body)
  have "length (dropWhile (\<lambda>x. x \<noteq> CHR ''>'') (drop 3 s)) \<le> length (drop 3 s)"
    by (rule length_dropWhile_le)
  with 2 show ?case by simp
qed simp_all

text \<open>
  \<open>(*Regexp).SubexpNames\<close>: index 0 is the whole match and has the empty name; the
  groups are numbered from left to right through all alternatives.
\<close>

fun groupNames :: "item list \<Rightarrow> string list" where
  "groupNames [] = []"
| "groupNames (Lit c # re) = groupNames re"
| "groupNames (Named n # re) = n # groupNames re"

definition SubexpNames :: "Regexp \<Rightarrow> string list" where
  "SubexpNames re = [] # concat (map groupNames re)"

text \<open>
  Matching is leftmost-first, as a backtracking matcher finds it. \<open>.\<close> matches any
  character but the newline, and \<open>.+\<close> is greedy: \<open>backtrack\<close> tries the longest run
  first and gives one character back at a time. A match is the list of the captured
  strings and the text that follows the match. At one place the alternatives are tried
  in their order, and the groups of the alternatives that were not taken are reported
  as empty strings.
\<close>

definition dotRun :: "string \<Rightarrow> nat" where
  "dotRun s = length (takeWhile (\<lambda>c. c \<noteq> CHR 0x0A) s)"

primrec backtrack ::
  "(string \<Rightarrow> (string list \<times> string) option) \<Rightarrow> string \<Rightarrow> nat \<Rightarrow> (string list \<times> string) option"
where
  "backtrack k s 0 = None"
| "backtrack k s (Suc n) =
     (case k (drop (Suc n) s) of
        Some (caps, r) \<Rightarrow> Some (take (Suc n) s # caps, r)
      | None \<Rightarrow> backtrack k s n)"

primrec matchHere :: "item list \<Rightarrow> string \<Rightarrow> (string list \<times> string) option" where
  "matchHere [] s = Some ([], s)"
| "matchHere (it # re) s =
     (case it of
        Lit c \<Rightarrow> (case s of [] \<Rightarrow> None | x # xs \<Rightarrow> if x = c then matchHere re xs else None)
      | Named n \<Rightarrow> backtrack (matchHere re) s (dotRun s))"

text \<open>
  \<open>(*Regexp).FindStringSubmatch\<close>: the match that starts leftmost, as the whole match
  followed by the captures; \<open>nil\<close>, the empty list, when there is none.
\<close>

primrec matchAlts :: "Regexp \<Rightarrow> string \<Rightarrow> (string list \<times> string) option" where
  "matchAlts [] s = None"
| "matchAlts (a # alts) s =
     (case matchHere a s of
        Some (caps, r) \<Rightarrow> Some (caps @ replicate (length (concat (map groupNames alts))) [], r)
      | None \<Rightarrow>
          (case matchAlts alts s of
             Some (caps, r) \<Rightarrow> Some (replicate (length (groupNames a)) [] @ caps, r)
           | None \<Rightarrow> None))"

primrec FindStringSubmatch :: "Regexp \<Rightarrow> string \<Rightarrow> string list" where
  "FindStringSubmatch re [] =
     (case matchAlts re [] of Some (caps, r) \<Rightarrow> [] # caps | None \<Rightarrow> [])"
| "FindStringSubmatch re (c # s) =
     (case matchAlts re (c # s) of
        Some (caps, r) \<Rightarrow> take (length (c # s) - length r) (c # s) # caps
      | None \<Rightarrow> FindStringSubmatch re s)"

section \<open>\<open>PathParameters\<close>\<close>

text \<open>The body of the first loop: a field that starts with \<open>{\<close> becomes a named group.\<close>

definition toGroup :: "string \<Rightarrow> string" where
  "toGroup field =
     (if HasPrefix field ''{''
      then ReplaceAll (ReplaceAll field ''{'' ''(?P<'') ''}'' ''>.+)''
      else field)"

text \<open>
  The second loop, over \<open>SubexpNames\<close> with their indices: it fills \<open>result\<close> and
  stops with the error at the first named group that the match does not reach.
\<close>

fun PathParameters_loop ::
  "(nat \<times> string) list \<Rightarrow> string list \<Rightarrow> (string \<rightharpoonup> string) \<Rightarrow> failure + (string \<rightharpoonup> string)"
where
  "PathParameters_loop [] match result = Inr result"
| "PathParameters_loop ((i, fieldName) # rest) match result =
     (if i = 0 \<or> fieldName = [] then PathParameters_loop rest match result
      else if i \<ge> length match then Inl ParseError
      else PathParameters_loop rest match (result(fieldName \<mapsto> match ! i)))"

definition pattern :: "string \<Rightarrow> failure + string" where
  "pattern endpoint =
     (let fields = Split endpoint CHR ''/'' in
      if length fields \<le> 1 then Inl IndexOutOfRange
      else Inr (Join (map toGroup (fields[1 := ''{path}''])) ''/''))"

definition PathParameters :: "string \<Rightarrow> string \<Rightarrow> failure + (string \<rightharpoonup> string)" where
  "PathParameters endpoint vaultPath =
     (case pattern endpoint of
        Inl e \<Rightarrow> Inl e
      | Inr pat \<Rightarrow>
          (case Compile pat of
             Inl e \<Rightarrow> Inl e
           | Inr endpointReg \<Rightarrow>
               PathParameters_loop (enumerate 0 (SubexpNames endpointReg))
                 (FindStringSubmatch endpointReg vaultPath) Map.empty))"

section \<open>\<open>tokenCheckLease\<close>\<close>

text \<open>
  The two fields of the resource that \<open>tokenCheckLease\<close> reads. \<open>lease_duration\<close> is a
  Go \<open>int\<close>, taken 64 bits wide.
\<close>

record token_data =
  lease_started :: string
  lease_duration :: "64 word"

text \<open>
  A \<open>time.Time\<close> is the number of nanoseconds since the epoch, a \<open>time.Duration\<close> a
  signed 64-bit count of nanoseconds; the product \<open>time.Second * time.Duration(duration)\<close>
  wraps. \<open>time.Parse(time.RFC3339, _)\<close> is a parameter, and so is the clock, read once.
  The function clears \<open>lease_started\<close> when it does not parse, so the resource is
  returned with the answer.
\<close>

definition Second :: "64 word" where
  "Second = 1000000000"

definition Minute :: "64 word" where
  "Minute = 60 * Second"

definition Add :: "int \<Rightarrow> 64 word \<Rightarrow> int" where
  "Add t d = t + sint d"

definition tokenCheckLease ::
  "(string \<Rightarrow> int option) \<Rightarrow> int \<Rightarrow> token_data \<Rightarrow> bool \<times> token_data" where
  "tokenCheckLease parseRFC3339 now d =
     (let startedStr = lease_started d; duration = lease_duration d in
      if startedStr = [] then (False, d)
      else case parseRFC3339 startedStr of
        None \<Rightarrow> (False, d\<lparr>lease_started := []\<rparr>)
      | Some started \<Rightarrow>
          if Add (Add started (Second * duration)) (Minute * 5) < now then (False, d)
          else if Add started (Second * duration) > Add now (Minute * (- 5)) then (False, d)
          else (True, d))"

text \<open>
  \<open>tokenRead\<close> reaches the call of \<open>Renew\<close> when the accessor lookup succeeded and
  \<open>tokenCheckLease\<close> answered true.
\<close>

definition tokenRead_renews ::
  "bool \<Rightarrow> (string \<Rightarrow> int option) \<Rightarrow> int \<Rightarrow> token_data \<Rightarrow> bool" where
  "tokenRead_renews lookupFailed parseRFC3339 now d =
     (if lookupFailed then False else fst (tokenCheckLease parseRFC3339 now d))"

section \<open>The documented grammar of endpoint templates\<close>

text \<open>
  A segment of a template is a literal or a placeholder \<open>{name}\<close>. For the pattern
  that \<open>PathParameters\<close> builds to be what the grammar intends, a literal must be made
  of characters that the pattern syntax reads as themselves, and a name must be a
  capture name. \<open>wellFormed\<close> asks this of every segment but the one at index 1,
  which both functions overwrite.
\<close>

definition isLiteral :: "string \<Rightarrow> bool" where
  "isLiteral seg = list_all (\<lambda>c. isPlain c) seg"

definition isPlaceholder :: "string \<Rightarrow> bool" where
  "isPlaceholder seg =
     (case seg of
        [] \<Rightarrow> False
      | c # r \<Rightarrow> c = CHR ''{'' \<and> r \<noteq> [] \<and> last r = CHR ''}'' \<and> isValidCaptureName (butlast r))"

definition wellFormed :: "string \<Rightarrow> bool" where
  "wellFormed endpoint =
     (case Split endpoint CHR ''/'' of
        a # b # r \<Rightarrow> list_all (\<lambda>seg. isLiteral seg \<or> isPlaceholder seg) (a # r)
      | _ \<Rightarrow> False)"

section \<open>Paths whose braces are paired\<close>

text \<open>
  In a rendered path of the documented grammar every \<open>{\<close> opens a placeholder that
  the next brace closes: braces are paired and not nested. \<open>pairedBraces\<close> decides
  this by one scan; the flag says whether a placeholder is open. Such a path is a
  sequence of texts and placeholder tokens, and \<open>unparse\<close> writes one out.
\<close>

primrec pairedFrom :: "bool \<Rightarrow> string \<Rightarrow> bool" where
  "pairedFrom inside [] = (\<not> inside)"
| "pairedFrom inside (c # s) =
     (if c = CHR ''{'' then \<not> inside \<and> pairedFrom True s
      else if c = CHR ''}'' then inside \<and> pairedFrom False s
      else pairedFrom inside s)"

definition pairedBraces :: "string \<Rightarrow> bool" where
  "pairedBraces s = pairedFrom False s"

definition braceFree :: "string \<Rightarrow> bool" where
  "braceFree s = (CHR ''{'' \<notin> set s \<and> CHR ''}'' \<notin> set s)"

text \<open>A field value that is a string without braces.\<close>

fun braceFreeValue :: "fieldValue \<Rightarrow> bool" where
  "braceFreeValue (StringValue v) = braceFree v"
| "braceFreeValue OtherValue = False"

datatype piece = Text string | Token string

fun unparse :: "piece list \<Rightarrow> string" where
  "unparse [] = []"
| "unparse (Text t # ps) = t @ unparse ps"
| "unparse (Token n # ps) = ''{'' @ n @ ''}'' @ unparse ps"

fun okPiece :: "piece \<Rightarrow> bool" where
  "okPiece (Text t) = braceFree t"
| "okPiece (Token n) = braceFree n"

fun resolve :: "string \<Rightarrow> string \<Rightarrow> piece \<Rightarrow> piece" where
  "resolve f v (Text t) = Text t"
| "resolve f v (Token n) = (if n = f then Text v else Token n)"

declare Compile.simps [simp del]
declare ReplaceAll.simps [simp del]

section \<open>Facts about the string functions\<close>

subsection \<open>Split and Join\<close>

lemma length_splitFrom: "length (splitFrom cur s sep) = Suc (count_list s sep)"
  by (induction s arbitrary: cur) simp_all

lemma length_Split: "length (Split s sep) = Suc (count_list s sep)"
  by (simp add: Split_def length_splitFrom)

lemma Split_short_iff: "length (Split s sep) \<le> Suc 0 \<longleftrightarrow> sep \<notin> set s"
  by (simp add: length_Split count_list_0_iff)

lemma splitFrom_append:
  "sep \<notin> set a \<Longrightarrow> splitFrom cur (a @ s) sep = splitFrom (cur @ a) s sep"
  by (induction a arbitrary: cur) auto

lemma splitFrom_segments:
  "sep \<notin> set cur \<Longrightarrow> \<forall>seg \<in> set (splitFrom cur s sep). sep \<notin> set seg"
proof (induction s arbitrary: cur)
  case Nil
  then show ?case by simp
next
  case (Cons a s)
  have "\<forall>seg \<in> set (splitFrom [] s sep). sep \<notin> set seg"
    by (rule Cons.IH) simp
  moreover have "a \<noteq> sep \<Longrightarrow> \<forall>seg \<in> set (splitFrom (cur @ [a]) s sep). sep \<notin> set seg"
    using Cons.prems by (intro Cons.IH) simp
  ultimately show ?case using Cons.prems by simp
qed

lemma Split_segments: "\<forall>seg \<in> set (Split s sep). sep \<notin> set seg"
  unfolding Split_def by (rule splitFrom_segments) simp

lemma Split_Join:
  "segs \<noteq> [] \<Longrightarrow> \<forall>seg \<in> set segs. sep \<notin> set seg \<Longrightarrow> Split (Join segs [sep]) sep = segs"
proof (induction segs "[sep]" rule: Join.induct)
  case 1
  then show ?case by simp
next
  case (2 a)
  then show ?case
    using splitFrom_append [of sep a "[]" "[]"] by (simp add: Split_def)
next
  case (3 a b r)
  then show ?case
    using splitFrom_append [of sep a "[]" "sep # Join (b # r) [sep]"] by (simp add: Split_def)
qed

lemma Join_Cons: "Join (a # r) sep = a @ concat (map ((@) sep) r)"
  by (induction r arbitrary: a) simp_all

subsection \<open>ReplaceAll\<close>

lemma ReplaceAll_skip:
  "c0 \<notin> set pre \<Longrightarrow> ReplaceAll (pre @ s) (c0 # old) new = pre @ ReplaceAll s (c0 # old) new"
  by (induction pre) (auto simp: ReplaceAll.simps)

lemma ReplaceAll_absent:
  "c0 \<notin> set s \<Longrightarrow> ReplaceAll s (c0 # old) new = s"
  using ReplaceAll_skip [of c0 s "[]" old new] by (simp add: ReplaceAll.simps)

lemma ReplaceAll_hit:
  "old \<noteq> [] \<Longrightarrow> ReplaceAll (old @ s) old new = new @ ReplaceAll s old new"
  by (cases old) (simp_all add: ReplaceAll.simps)

lemma ReplaceAll_miss:
  "old \<noteq> [] \<Longrightarrow> \<not> prefix old (c # s) \<Longrightarrow> ReplaceAll (c # s) old new = c # ReplaceAll s old new"
  by (simp add: ReplaceAll.simps)

text \<open>A token \<open>{f}\<close> at the head of a string that begins with the token \<open>{n}\<close> is that token.\<close>

lemma token_prefix_eq:
  assumes "prefix (f @ [x]) (n @ x # s)" "x \<notin> set f" "x \<notin> set n"
  shows "f = n"
proof -
  from assms(1) obtain t where t: "n @ x # s = f @ x # t"
    by (auto simp: prefix_def)
  have "takeWhile (\<lambda>c. c \<noteq> x) (n @ x # s) = n" using assms(3)
    by (auto simp: takeWhile_tail takeWhile_eq_all_conv)
  moreover have "takeWhile (\<lambda>c. c \<noteq> x) (f @ x # t) = f" using assms(2)
    by (auto simp: takeWhile_tail takeWhile_eq_all_conv)
  ultimately show ?thesis using t by simp
qed

lemma ReplaceAll_other_token:
  assumes "f \<noteq> n" "CHR ''{'' \<notin> set n" "CHR ''}'' \<notin> set n" "CHR ''}'' \<notin> set f"
  shows "ReplaceAll (''{'' @ n @ ''}'' @ s) (''{'' @ f @ ''}'') v
           = ''{'' @ n @ ''}'' @ ReplaceAll s (''{'' @ f @ ''}'') v"
proof -
  have np: "\<not> prefix (''{'' @ f @ ''}'') (''{'' @ n @ ''}'' @ s)"
    using token_prefix_eq [of f "CHR ''}''" n s] assms by auto
  have "ReplaceAll (''{'' @ n @ ''}'' @ s) (''{'' @ f @ ''}'') v
          = CHR ''{'' # ReplaceAll ((n @ ''}'') @ s) (CHR ''{'' # f @ ''}'') v"
    using np by (simp add: ReplaceAll.simps)
  also have "\<dots> = CHR ''{'' # (n @ ''}'') @ ReplaceAll s (CHR ''{'' # f @ ''}'') v"
    using assms(2) by (subst ReplaceAll_skip) simp_all
  finally show ?thesis by simp
qed

section \<open>Facts about the pattern matcher\<close>

subsection \<open>Compiling literals and named groups\<close>

text \<open>
  The pieces that a template of the documented grammar contributes have no \<open>|\<close>, and
  the pattern built from them has one alternative.
\<close>

lemma Compile_lits:
  "\<forall>c \<in> set a. isPlain c \<Longrightarrow> Compile r = Inr [re] \<Longrightarrow>
     Compile (a @ r) = Inr [map Lit a @ re]"
proof (induction a)
  case Nil
  then show ?case by simp
next
  case (Cons c a)
  then have "c \<noteq> CHR ''(''" "c \<noteq> CHR ''|''" by (auto simp: isPlain_def isSpecial_def)
  with Cons show ?case
    by (simp add: Compile.simps(2) [of c] addItem_def)
qed

lemma not_alnum:
  "\<not> isalnum CHR ''>''" "\<not> isalnum CHR ''{''" "\<not> isalnum CHR ''}''" "\<not> isalnum CHR ''/''"
  by (simp_all add: isalnum_def)

lemma valid_name_chars:
  assumes "isValidCaptureName n"
  shows "n \<noteq> []" "CHR ''>'' \<notin> set n" "CHR ''{'' \<notin> set n" "CHR ''}'' \<notin> set n"
    "CHR ''/'' \<notin> set n"
proof -
  from assms have a: "\<forall>c \<in> set n. c = CHR ''_'' \<or> isalnum c" and "n \<noteq> []"
    by (simp_all add: isValidCaptureName_def list_all_iff)
  then show "n \<noteq> []" by simp
  show "CHR ''>'' \<notin> set n" using a not_alnum(1) by fastforce
  show "CHR ''{'' \<notin> set n" using a not_alnum(2) by fastforce
  show "CHR ''}'' \<notin> set n" using a not_alnum(3) by fastforce
  show "CHR ''/'' \<notin> set n" using a not_alnum(4) by fastforce
qed

lemma Compile_group:
  assumes "isValidCaptureName n"
    and "Compile r = Inr [re]"
  shows "Compile (''(?P<'' @ n @ ''>.+)'' @ r) = Inr [Named n # re]"
proof -
  note valid = assms(1)
  from valid_name_chars(2) [OF valid] have ng: "CHR ''>'' \<notin> set n" .
  then have tw: "takeWhile (\<lambda>x. x \<noteq> CHR ''>'') (n @ CHR ''>'' # ''.+)'' @ r) = n"
    by (auto simp: takeWhile_tail takeWhile_eq_all_conv)
  from ng have dw: "dropWhile (\<lambda>x. x \<noteq> CHR ''>'') (n @ CHR ''>'' # ''.+)'' @ r) = CHR ''>'' # ''.+)'' @ r"
    by (auto simp: dropWhile_append3 dropWhile_append)
  show ?thesis
    using assms tw dw by (simp add: Compile.simps(2) [of "CHR ''(''"] addItem_def)
qed


lemma isPlaceholder_iff:
  "isPlaceholder seg \<longleftrightarrow> (\<exists>n. seg = ''{'' @ n @ ''}'' \<and> isValidCaptureName n)"
proof
  assume "isPlaceholder seg"
  then obtain r where r: "seg = CHR ''{'' # r" "r \<noteq> []" "last r = CHR ''}''"
      "isValidCaptureName (butlast r)"
    by (auto simp: isPlaceholder_def split: list.splits)
  then have "seg = ''{'' @ butlast r @ ''}''"
    using append_butlast_last_id [of r] by simp
  with r(4) show "\<exists>n. seg = ''{'' @ n @ ''}'' \<and> isValidCaptureName n" by blast
next
  assume "\<exists>n. seg = ''{'' @ n @ ''}'' \<and> isValidCaptureName n"
  then show "isPlaceholder seg" by (auto simp: isPlaceholder_def)
qed

lemma toGroup_literal: "isLiteral seg \<Longrightarrow> toGroup seg = seg"
  by (cases seg) (auto simp: toGroup_def HasPrefix_def isLiteral_def isPlain_def isSpecial_def)

lemma toGroup_placeholder:
  assumes "isValidCaptureName n"
  shows "toGroup (''{'' @ n @ ''}'') = ''(?P<'' @ n @ ''>.+)''"
proof -
  note v = valid_name_chars [OF assms]
  have "ReplaceAll (''{'' @ n @ ''}'') ''{'' ''(?P<'' = ''(?P<'' @ ReplaceAll (n @ ''}'') ''{'' ''(?P<''"
    by (rule ReplaceAll_hit) simp
  also have "ReplaceAll (n @ ''}'') ''{'' ''(?P<'' = n @ ''}''"
    using v(3) by (intro ReplaceAll_absent) simp
  finally have 1: "ReplaceAll (''{'' @ n @ ''}'') ''{'' ''(?P<'' = (''(?P<'' @ n) @ ''}''"
    by simp
  have "ReplaceAll ((''(?P<'' @ n) @ ''}'') ''}'' ''>.+)'' = (''(?P<'' @ n) @ ReplaceAll ''}'' ''}'' ''>.+)''"
    using v(4) by (intro ReplaceAll_skip) simp
  also have "ReplaceAll ''}'' ''}'' ''>.+)'' = ''>.+)''"
    by (simp add: ReplaceAll.simps)
  finally show ?thesis
    unfolding toGroup_def 1 by (simp add: HasPrefix_def)
qed

lemma Compile_segment:
  assumes "isLiteral seg \<or> isPlaceholder seg" "Compile r = Inr [re]"
  shows "\<exists>re'. Compile (toGroup seg @ r) = Inr [re']"
proof (cases "isPlaceholder seg")
  case True
  then obtain n where "seg = ''{'' @ n @ ''}''" "isValidCaptureName n"
    by (auto simp: isPlaceholder_iff)
  then show ?thesis
    using Compile_group [of n r re] toGroup_placeholder [of n] assms(2) by simp
next
  case False
  with assms(1) have l: "isLiteral seg" by simp
  then have "\<forall>c \<in> set seg. isPlain c" by (simp add: isLiteral_def list_all_iff)
  from Compile_lits [OF this assms(2)] show ?thesis
    using toGroup_literal [OF l] by simp
qed

lemma Compile_slash:
  "Compile r = Inr [re] \<Longrightarrow> Compile (CHR ''/'' # r) = Inr [Lit CHR ''/'' # re]"
  using Compile_lits [of "''/''" r re] by (simp add: isPlain_def isSpecial_def)

lemma Compile_segments:
  "\<forall>seg \<in> set segs. isLiteral seg \<or> isPlaceholder seg \<Longrightarrow>
     \<exists>re. Compile (Join (map toGroup segs) ''/'') = Inr [re]"
proof (induction segs)
  case Nil
  then show ?case by (simp add: Compile.simps)
next
  case (Cons a segs)
  show ?case
  proof (cases segs)
    case Nil
    have "Compile [] = Inr [[]]" by (simp add: Compile.simps)
    from Compile_segment [OF _ this, of a] Cons.prems Nil show ?thesis by simp
  next
    case (Cons b r)
    from Cons.IH Cons.prems obtain re where "Compile (Join (map toGroup segs) ''/'') = Inr [re]"
      by auto
    then have "Compile (CHR ''/'' # Join (map toGroup segs) ''/'') = Inr [Lit CHR ''/'' # re]"
      by (rule Compile_slash)
    from Compile_segment [OF _ this, of a] Cons.prems Cons show ?thesis by simp
  qed
qed

subsection \<open>The backtracking matcher\<close>

lemma backtrack_Some:
  "backtrack f s n = Some (caps, r) \<Longrightarrow>
     \<exists>k c'. 1 \<le> k \<and> k \<le> n \<and> f (drop k s) = Some (c', r) \<and> caps = take k s # c'"
proof (induction n)
  case 0
  then show ?case by simp
next
  case (Suc n)
  show ?case
  proof (cases "f (drop (Suc n) s)")
    case None
    with Suc obtain k c' where "1 \<le> k \<and> k \<le> n \<and> f (drop k s) = Some (c', r) \<and> caps = take k s # c'"
      by auto
    then have "1 \<le> k \<and> k \<le> Suc n \<and> f (drop k s) = Some (c', r) \<and> caps = take k s # c'"
      by simp
    then show ?thesis by blast
  next
    case (Some x)
    with Suc.prems have "f (drop (Suc n) s) = Some (tl caps, r) \<and> caps = take (Suc n) s # tl caps"
      by (cases x) auto
    then have "1 \<le> Suc n \<and> Suc n \<le> Suc n \<and> f (drop (Suc n) s) = Some (tl caps, r)
        \<and> caps = take (Suc n) s # tl caps"
      by simp
    then show ?thesis by blast
  qed
qed

lemma backtrack_first:
  assumes "1 \<le> k0" "k0 \<le> n" "f (drop k0 s) = Some (c', r)"
    and "\<forall>k. k0 < k \<and> k \<le> n \<longrightarrow> f (drop k s) = None"
  shows "backtrack f s n = Some (take k0 s # c', r)"
  using assms(2,4)
proof (induction n)
  case 0
  with assms(1) show ?case by simp
next
  case (Suc n)
  show ?case
  proof (cases "k0 = Suc n")
    case True
    with assms(3) show ?thesis by simp
  next
    case False
    with Suc.prems have "k0 \<le> n" "f (drop (Suc n) s) = None" by auto
    with Suc show ?thesis by simp
  qed
qed

lemma backtrack_finds:
  "1 \<le> k \<Longrightarrow> k \<le> n \<Longrightarrow> f (drop k s) \<noteq> None \<Longrightarrow> backtrack f s n \<noteq> None"
proof (induction n)
  case 0
  then show ?case by simp
next
  case (Suc n)
  then show ?case
    by (cases "k = Suc n") (auto split: option.splits)
qed

lemma dotRun_le: "dotRun s \<le> length s"
  by (simp add: dotRun_def length_takeWhile_le)

lemma take_takeWhile_all:
  "k \<le> length (takeWhile P s) \<Longrightarrow> c \<in> set (take k s) \<Longrightarrow> P c"
  by (induction s arbitrary: k) (auto simp: take_Cons split: nat.splits if_splits)

lemma dotRun_take: "k \<le> dotRun s \<Longrightarrow> CHR 0x0A \<notin> set (take k s)"
  unfolding dotRun_def using take_takeWhile_all [of k "\<lambda>c. c \<noteq> CHR 0x0A" s] by blast

lemma dotRun_append: "dotRun s \<le> dotRun (s @ t)"
  by (induction s) (simp_all add: dotRun_def)

lemma dotRun_all: "CHR 0x0A \<notin> set a \<Longrightarrow> length a \<le> dotRun (a @ t)"
  by (induction a) (auto simp: dotRun_def)

lemma matchHere_lits: "matchHere (map Lit a @ re) (a @ s) = matchHere re s"
  by (induction a) simp_all

lemma matchHere_lits_only:
  "matchHere (map Lit a) s = Some x \<Longrightarrow> prefix a s"
proof (induction a arbitrary: s)
  case Nil
  then show ?case by simp
next
  case (Cons c a)
  then show ?case by (cases s) (auto split: if_splits)
qed

lemma matchHere_captures:
  "matchHere re s = Some (caps, r) \<Longrightarrow>
     length caps = length (groupNames re) \<and> (\<forall>c \<in> set caps. c \<noteq> [] \<and> CHR 0x0A \<notin> set c)
     \<and> length r \<le> length s"
proof (induction re arbitrary: s caps r)
  case Nil
  then show ?case by simp
next
  case (Cons it re)
  show ?case
  proof (cases it)
    case (Lit c)
    with Cons.prems obtain xs where "s = c # xs" "matchHere re xs = Some (caps, r)"
      by (cases s) (auto split: if_splits)
    with Cons.IH [of xs caps r] Lit show ?thesis by simp
  next
    case (Named n)
    with Cons.prems have "backtrack (matchHere re) s (dotRun s) = Some (caps, r)" by simp
    from backtrack_Some [OF this] obtain k c' where
      k: "1 \<le> k" "k \<le> dotRun s" "matchHere re (drop k s) = Some (c', r)" "caps = take k s # c'"
      by blast
    from k(1,2) dotRun_le [of s] have "take k s \<noteq> []" by auto
    moreover have "CHR 0x0A \<notin> set (take k s)" using k(2) by (rule dotRun_take)
    moreover from Cons.IH [OF k(3)] have "length c' = length (groupNames re)"
      "\<forall>c \<in> set c'. c \<noteq> [] \<and> CHR 0x0A \<notin> set c" "length r \<le> length (drop k s)"
      by blast+
    moreover from this(3) have "length r \<le> length s" by simp
    ultimately show ?thesis
      using k(4) Named by simp
  qed
qed

lemma matchHere_append:
  "matchHere re s \<noteq> None \<Longrightarrow> matchHere re (s @ t) \<noteq> None"
proof (induction re arbitrary: s)
  case Nil
  then show ?case by simp
next
  case (Cons it re)
  show ?case
  proof (cases it)
    case (Lit c)
    with Cons.prems obtain xs where "s = c # xs" "matchHere re xs \<noteq> None"
      by (cases s) (auto split: if_splits)
    with Cons.IH [of xs] Lit show ?thesis by simp
  next
    case (Named n)
    with Cons.prems obtain caps r where "backtrack (matchHere re) s (dotRun s) = Some (caps, r)"
      by auto
    from backtrack_Some [OF this] obtain k c' where
      k: "1 \<le> k" "k \<le> dotRun s" "matchHere re (drop k s) = Some (c', r)"
      by blast
    from k(2) dotRun_le [of s] have "drop k (s @ t) = drop k s @ t" by simp
    moreover from k(3) have "matchHere re (drop k s @ t) \<noteq> None"
      by (intro Cons.IH) simp
    moreover from k(2) dotRun_append [of s t] have "k \<le> dotRun (s @ t)" by simp
    ultimately have "backtrack (matchHere re) (s @ t) (dotRun (s @ t)) \<noteq> None"
      using k(1) by (intro backtrack_finds [of k]) simp_all
    with Named show ?thesis by simp
  qed
qed

subsection \<open>Alternatives and the leftmost search\<close>

lemma matchAlts_single: "matchAlts [a] s = matchHere a s"
  by (simp split: option.splits)

lemma matchAlts_length:
  "matchAlts re s = Some (caps, r) \<Longrightarrow> length caps = length (concat (map groupNames re))"
proof (induction re arbitrary: caps)
  case Nil
  then show ?case by simp
next
  case (Cons a re)
  show ?case
  proof (cases "matchHere a s")
    case None
    with Cons.prems obtain caps' where "matchAlts re s = Some (caps', r)"
        "caps = replicate (length (groupNames a)) [] @ caps'"
      by (auto split: option.splits)
    with Cons.IH [of caps'] show ?thesis by simp
  next
    case (Some x)
    obtain c' r' where x: "x = (c', r')" by (cases x)
    with Some matchHere_captures [of a s c' r'] have "length c' = length (groupNames a)" by simp
    with Cons.prems Some x show ?thesis by auto
  qed
qed

lemma matchAlts_append: "matchAlts re s \<noteq> None \<Longrightarrow> matchAlts re (s @ t) \<noteq> None"
proof (induction re)
  case Nil
  then show ?case by simp
next
  case (Cons a re)
  show ?case
  proof (cases "matchHere a s")
    case None
    with Cons.prems have "matchAlts re s \<noteq> None" by (auto split: option.splits)
    from Cons.IH [OF this] show ?thesis by (auto split: option.splits)
  next
    case (Some x)
    then have "matchHere a (s @ t) \<noteq> None" by (intro matchHere_append) simp
    then show ?thesis by (auto split: option.splits)
  qed
qed

lemma Find_here: "matchAlts re s \<noteq> None \<Longrightarrow> FindStringSubmatch re s \<noteq> []"
  by (cases s) auto

lemma Find_shape:
  "FindStringSubmatch re s = [] \<or>
     (\<exists>whole caps r. FindStringSubmatch re s = whole # caps \<and>
        length caps = length (concat (map groupNames re)) \<and>
        (\<exists>s'. matchAlts re s' = Some (caps, r)))"
proof (induction s)
  case Nil
  show ?case
  proof (cases "matchAlts re []")
    case None
    then show ?thesis by simp
  next
    case (Some x)
    obtain caps r where "x = (caps, r)" by (cases x)
    with Some matchAlts_length [of re "[]" caps r] show ?thesis by auto
  qed
next
  case (Cons c s)
  show ?case
  proof (cases "matchAlts re (c # s)")
    case None
    with Cons show ?thesis by simp
  next
    case (Some x)
    obtain caps r where "x = (caps, r)" by (cases x)
    with Some matchAlts_length [of re "c # s" caps r] show ?thesis by auto
  qed
qed

lemma Find_length:
  "FindStringSubmatch re s \<noteq> [] \<Longrightarrow>
     length (FindStringSubmatch re s) = Suc (length (concat (map groupNames re)))"
  using Find_shape [of re s] by auto

text \<open>With one alternative every group takes part in the match and is not empty.\<close>

lemma Find_single_captures:
  "\<forall>i. 0 < i \<and> i < length (FindStringSubmatch [a] s) \<longrightarrow> FindStringSubmatch [a] s ! i \<noteq> []"
proof -
  from Find_shape [of "[a]" s] show ?thesis
  proof (elim disjE exE conjE)
    assume "FindStringSubmatch [a] s = []"
    then show ?thesis by simp
  next
    fix whole caps r s'
    assume f: "FindStringSubmatch [a] s = whole # caps" and m: "matchAlts [a] s' = Some (caps, r)"
    from m have "matchHere a s' = Some (caps, r)" by (simp only: matchAlts_single)
    from matchHere_captures [OF this] have ne: "\<forall>c \<in> set caps. c \<noteq> []" by simp
    show ?thesis
    proof (intro allI impI)
      fix i assume "0 < i \<and> i < length (FindStringSubmatch [a] s)"
      with f obtain j where "i = Suc j" "j < length caps" by (cases i) auto
      with f ne show "FindStringSubmatch [a] s ! i \<noteq> []" by simp
    qed
  qed
qed

lemma Find_append: "FindStringSubmatch re s \<noteq> [] \<Longrightarrow> FindStringSubmatch re (s @ t) \<noteq> []"
proof (induction s)
  case Nil
  then have "matchAlts re [] \<noteq> None" by (auto split: option.splits)
  from matchAlts_append [OF this, of t] show ?case by (simp add: Find_here)
next
  case (Cons c s)
  show ?case
  proof (cases "matchAlts re (c # s)")
    case None
    with Cons have "FindStringSubmatch re (s @ t) \<noteq> []" by simp
    then show ?thesis by (auto split: option.splits)
  next
    case (Some x)
    then have "matchAlts re ((c # s) @ t) \<noteq> None" by (intro matchAlts_append) simp
    then show ?thesis by (intro Find_here)
  qed
qed

lemma Find_prepend: "FindStringSubmatch re s \<noteq> [] \<Longrightarrow> FindStringSubmatch re (pre @ s) \<noteq> []"
  by (induction pre) (auto split: option.splits)

subsection \<open>The loop that fills the result\<close>

lemma PathParameters_loop_error:
  "PathParameters_loop names match result = Inl e \<Longrightarrow> e = ParseError"
  by (induction names match result rule: PathParameters_loop.induct)
     (simp_all add: fun_upd_def split: if_splits)

lemma PathParameters_loop_longer:
  "PathParameters_loop names match result = Inr m \<Longrightarrow> length match \<le> length match' \<Longrightarrow>
     \<exists>m'. PathParameters_loop names match' result' = Inr m'"
proof (induction names arbitrary: result result' m)
  case Nil
  then show ?case by simp
next
  case (Cons p names)
  obtain i n where p: "p = (i, n)" by (cases p)
  show ?case
  proof (cases "i = 0 \<or> n = []")
    case True
    with Cons p show ?thesis by simp
  next
    case False
    with Cons.prems p have "\<not> i \<ge> length match"
      and "PathParameters_loop names match (result(n \<mapsto> match ! i)) = Inr m"
      by (auto split: if_splits)
    from Cons.IH [OF this(2) Cons.prems(2), of "result'(n \<mapsto> match' ! i)"] obtain m' where
      "PathParameters_loop names match' (result'(n \<mapsto> match' ! i)) = Inr m'" by blast
    moreover from \<open>\<not> i \<ge> length match\<close> Cons.prems(2) have "\<not> i \<ge> length match'" by simp
    ultimately show ?thesis using False p by simp
  qed
qed

lemma PathParameters_loop_values:
  "PathParameters_loop names match result = Inr m \<Longrightarrow>
   \<forall>k v. result k = Some v \<longrightarrow> v \<noteq> [] \<Longrightarrow>
   \<forall>i. 0 < i \<and> i < length match \<longrightarrow> match ! i \<noteq> [] \<Longrightarrow>
   \<forall>k v. m k = Some v \<longrightarrow> v \<noteq> []"
proof (induction names arbitrary: result m)
  case Nil
  then show ?case by simp
next
  case (Cons p names)
  obtain i n where p: "p = (i, n)" by (cases p)
  show ?case
  proof (cases "i = 0 \<or> n = []")
    case True
    with Cons p show ?thesis by simp
  next
    case False
    with Cons.prems(1) p have i: "i < length match" "0 < i"
      and l: "PathParameters_loop names match (result(n \<mapsto> match ! i)) = Inr m"
      by (auto split: if_splits)
    have "\<forall>k v. (result(n \<mapsto> match ! i)) k = Some v \<longrightarrow> v \<noteq> []"
      using Cons.prems(2,3) i by auto
    from Cons.IH [OF l this Cons.prems(3)] show ?thesis .
  qed
qed

lemma PathParameters_loop_dom:
  "PathParameters_loop names match result = Inr m \<Longrightarrow>
     dom m = dom result \<union> {n. \<exists>i. (i, n) \<in> set names \<and> i \<noteq> 0 \<and> n \<noteq> []}"
proof (induction names arbitrary: result m)
  case Nil
  then show ?case by simp
next
  case (Cons p names)
  obtain i n where p: "p = (i, n)" by (cases p)
  show ?case
  proof (cases "i = 0 \<or> n = []")
    case True
    with Cons p show ?thesis by auto
  next
    case False
    with Cons.prems(1) p have
      l: "PathParameters_loop names match (result(n \<mapsto> match ! i)) = Inr m"
      by (auto split: if_splits)
    from Cons.IH [OF l] False p show ?thesis by (auto split: if_splits)
  qed
qed

subsection \<open>The names of the groups\<close>

lemma addItem_names:
  "concat (map groupNames (addItem it re)) = groupNames [it] @ concat (map groupNames re)"
  by (cases re; cases it) (simp_all add: addItem_def)

lemma Compile_Cons:
  assumes "Compile (c # s) = Inr re"
  shows "(c = CHR ''('' \<and> prefix ''?P<'' s \<and>
            isValidCaptureName (takeWhile (\<lambda>x. x \<noteq> CHR ''>'') (drop 3 s)) \<and>
            CHR ''>'' \<in> set (drop 3 s) \<and>
            prefix ''.+)'' (drop 1 (dropWhile (\<lambda>x. x \<noteq> CHR ''>'') (drop 3 s))) \<and>
            (\<exists>re'. Compile (drop 3 (drop 1 (dropWhile (\<lambda>x. x \<noteq> CHR ''>'') (drop 3 s)))) = Inr re'
                \<and> re = addItem (Named (takeWhile (\<lambda>x. x \<noteq> CHR ''>'') (drop 3 s))) re'))
         \<or> (\<not> (c = CHR ''('' \<and> prefix ''?P<'' s) \<and> c = CHR ''|'' \<and>
              (\<exists>re'. Compile s = Inr re' \<and> re = [] # re'))
         \<or> (\<not> (c = CHR ''('' \<and> prefix ''?P<'' s) \<and> c \<noteq> CHR ''|'' \<and> isPlain c \<and>
              (\<exists>re'. Compile s = Inr re' \<and> re = addItem (Lit c) re'))"
  using assms unfolding Compile.simps(2) Let_def
  by (simp split: if_splits sum.splits)

lemma Compile_names:
  "Compile p = Inr re \<Longrightarrow> \<forall>n \<in> set (concat (map groupNames re)). n \<noteq> []"
proof (induction p arbitrary: re rule: Compile.induct)
  case 1
  then show ?case by (auto simp: Compile.simps)
next
  case (2 c s)
  from Compile_Cons [OF "2.prems"] show ?case
  proof (elim disjE conjE exE)
    fix re'
    assume a: "c = CHR ''(''" "prefix ''?P<'' s"
      "isValidCaptureName (takeWhile (\<lambda>x. x \<noteq> CHR ''>'') (drop 3 s))"
      "CHR ''>'' \<in> set (drop 3 s)"
      "prefix ''.+)'' (drop 1 (dropWhile (\<lambda>x. x \<noteq> CHR ''>'') (drop 3 s)))"
      "Compile (drop 3 (drop 1 (dropWhile (\<lambda>x. x \<noteq> CHR ''>'') (drop 3 s)))) = Inr re'"
      "re = addItem (Named (takeWhile (\<lambda>x. x \<noteq> CHR ''>'') (drop 3 s))) re'"
    have "\<forall>n \<in> set (concat (map groupNames re')). n \<noteq> []"
      using a(1-5) by (intro "2.IH"(1) [OF _ refl refl refl _ _ _ a(6)]) simp_all
    moreover from a(3) have "takeWhile (\<lambda>x. x \<noteq> CHR ''>'') (drop 3 s) \<noteq> []"
      by (simp add: isValidCaptureName_def)
    ultimately show ?thesis unfolding a(7) addItem_names by simp
  next
    fix re'
    assume a: "\<not> (c = CHR ''('' \<and> prefix ''?P<'' s)" "c = CHR ''|''" "Compile s = Inr re'"
      "re = [] # re'"
    from "2.IH"(2) [OF a(1,2,3)] a(4) show ?thesis by simp
  next
    fix re'
    assume a: "\<not> (c = CHR ''('' \<and> prefix ''?P<'' s)" "c \<noteq> CHR ''|''" "isPlain c"
      "Compile s = Inr re'" "re = addItem (Lit c) re'"
    from "2.IH"(3) [OF a(1,2,3,4)] show ?thesis unfolding a(5) addItem_names by simp
  qed
qed

lemma enumerate_names:
  "{n. \<exists>i. (i, n) \<in> set (enumerate 0 ([] # g)) \<and> i \<noteq> 0 \<and> n \<noteq> []} = {n \<in> set g. n \<noteq> []}" for g :: "string list"
proof -
  have "(\<exists>i. (i, n) \<in> set (enumerate (Suc 0) g) \<and> i \<noteq> 0) \<longleftrightarrow> n \<in> set g" for n :: string
  proof
    assume "\<exists>i. (i, n) \<in> set (enumerate (Suc 0) g) \<and> i \<noteq> 0"
    then show "n \<in> set g" by (auto simp: in_set_enumerate_eq)
  next
    assume "n \<in> set g"
    then obtain j where "j < length g" "g ! j = n" by (auto simp: in_set_conv_nth)
    then have "(Suc j, n) \<in> set (enumerate (Suc 0) g) \<and> Suc j \<noteq> 0"
      by (simp add: in_set_enumerate_eq)
    then show "\<exists>i. (i, n) \<in> set (enumerate (Suc 0) g) \<and> i \<noteq> 0" by blast
  qed
  then show ?thesis by auto
qed

section \<open>The example template\<close>

lemma pattern_role:
  "pattern ''/transform/role/{name}'' = Inr ''/(?P<path>.+)/role/(?P<name>.+)''"
  by (simp add: pattern_def toGroup_def HasPrefix_def Split_def ReplaceAll.simps)

lemma Compile_role:
  "Compile ''/(?P<path>.+)/role/(?P<name>.+)'' =
     Inr [[Lit CHR ''/'', Named ''path'', Lit CHR ''/'', Lit CHR ''r'', Lit CHR ''o'',
           Lit CHR ''l'', Lit CHR ''e'', Lit CHR ''/'', Named ''name'']]"
  by (simp add: Compile.simps addItem_def isPlain_def isSpecial_def isValidCaptureName_def
      isalnum_def)

lemma Find_role_no_leading_slash:
  "FindStringSubmatch
     [[Lit CHR ''/'', Named ''path'', Lit CHR ''/'', Lit CHR ''r'', Lit CHR ''o'',
       Lit CHR ''l'', Lit CHR ''e'', Lit CHR ''/'', Named ''name'']]
     ''transform/role/my-role'' = []"
  by (simp add: dotRun_def eval_nat_numeral)

lemma Find_role_leading_slash:
  "FindStringSubmatch
     [[Lit CHR ''/'', Named ''path'', Lit CHR ''/'', Lit CHR ''r'', Lit CHR ''o'',
       Lit CHR ''l'', Lit CHR ''e'', Lit CHR ''/'', Named ''name'']]
     ''/transform/role/my-role''
   = [''/transform/role/my-role'', ''transform'', ''my-role'']"
  by (simp add: dotRun_def eval_nat_numeral)

lemma PathParameters_role:
  "PathParameters ''/transform/role/{name}'' ''/transform/role/my-role''
     = Inr [''path'' \<mapsto> ''transform'', ''name'' \<mapsto> ''my-role'']"
  by (simp only: PathParameters_def pattern_role sum.case Compile_role Find_role_leading_slash)
     (simp add: SubexpNames_def)

section \<open>Extraction on the example path\<close>

text \<open>
  Claim C2, as stated: \<open>PathParameters("/transform/role/{name}", "transform/role/my-role")\<close>,
  the concrete path written without a leading \<open>/\<close>, returns the map
  \<open>{"path": "transform", "name": "my-role"}\<close>. It does not: the pattern
  \<open>/(?P<path>.+)/role/(?P<name>.+)\<close> begins with a \<open>/\<close> that must be followed by at
  least one character and then by \<open>/role/\<close>, and the path has no \<open>/\<close> before
  \<open>/role/\<close>. The match is \<open>nil\<close> and the function returns its error.
\<close>

theorem PathParameters_no_leading_slash_fails:
  "PathParameters ''/transform/role/{name}'' ''transform/role/my-role'' = Inl ParseError"
  by (simp only: PathParameters_def pattern_role sum.case Compile_role Find_role_no_leading_slash)
     (simp add: SubexpNames_def)

text \<open>
  Claim C2, amended: on the path as \<open>ParsePath\<close> renders it, with its leading \<open>/\<close>,
  \<open>PathParameters("/transform/role/{name}", "/transform/role/my-role")\<close> succeeds and
  returns exactly \<open>{"path": "transform", "name": "my-role"}\<close>: the mount segment is
  captured under the fixed key \<open>path\<close>.
\<close>

theorem PathParameters_example:
  "PathParameters ''/transform/role/{name}'' ''/transform/role/my-role''
     = Inr [''path'' \<mapsto> ''transform'', ''name'' \<mapsto> ''my-role'']"
  by (rule PathParameters_role)

section \<open>The index of the mount segment\<close>

lemma Compile_no_panic: "Compile p \<noteq> Inl IndexOutOfRange"
  by (induction p rule: Compile.induct)
     (auto simp: Compile.simps Let_def split: sum.splits)

lemma PathParameters_loop_no_panic:
  "PathParameters_loop names match result \<noteq> Inl IndexOutOfRange"
  by (induction names match result rule: PathParameters_loop.induct) (simp_all add: fun_upd_def)

lemma ParsePath_loop_error:
  "ParsePath_loop d fs s = Inl e \<Longrightarrow> e = TypeAssertion"
  by (induction fs arbitrary: s) (auto split: option.splits fieldValue.splits)

lemma recomprise_ok:
  "CHR ''/'' \<in> set endpoint \<Longrightarrow>
     recomprise m endpoint = Inr (''/'' @ Join (drop 1 ((Split endpoint CHR ''/'')[1 := m])) ''/'')"
  by (simp add: recomprise_def Let_def Split_short_iff)

lemma recomprise_panic:
  "CHR ''/'' \<notin> set endpoint \<Longrightarrow> recomprise m endpoint = Inl IndexOutOfRange"
  by (simp add: recomprise_def Let_def Split_short_iff)

lemma pattern_ok:
  "CHR ''/'' \<in> set endpoint \<Longrightarrow>
     pattern endpoint = Inr (Join (map toGroup ((Split endpoint CHR ''/'')[1 := ''{path}''])) ''/'')"
  by (simp add: pattern_def Let_def Split_short_iff)

lemma pattern_panic:
  "CHR ''/'' \<notin> set endpoint \<Longrightarrow> pattern endpoint = Inl IndexOutOfRange"
  by (simp add: pattern_def Let_def Split_short_iff)

text \<open>
  Claim C7: \<open>ParsePath\<close> and \<open>PathParameters\<close> both index element 1 of the split
  endpoint without a bounds check. For an endpoint that contains a \<open>/\<close> the index is
  in range and neither function panics on it; for an endpoint without a \<open>/\<close> both
  panic with the index out of range, whatever their other arguments are.
\<close>

theorem mount_segment_index:
  "(CHR ''/'' \<in> set endpoint \<longrightarrow>
      ParsePath m endpoint d \<noteq> Inl IndexOutOfRange \<and>
      PathParameters endpoint vaultPath \<noteq> Inl IndexOutOfRange)
   \<and> (CHR ''/'' \<notin> set endpoint \<longrightarrow>
      ParsePath m endpoint d = Inl IndexOutOfRange \<and>
      PathParameters endpoint vaultPath = Inl IndexOutOfRange)"
proof (intro conjI impI)
  assume "CHR ''/'' \<in> set endpoint"
  then show "ParsePath m endpoint d \<noteq> Inl IndexOutOfRange"
    using ParsePath_loop_error [of d _ _ IndexOutOfRange]
    by (auto simp: ParsePath_def recomprise_ok)
next
  assume "CHR ''/'' \<in> set endpoint"
  then show "PathParameters endpoint vaultPath \<noteq> Inl IndexOutOfRange"
    using Compile_no_panic
    by (auto simp: PathParameters_def pattern_ok PathParameters_loop_no_panic split: sum.splits)
next
  assume "CHR ''/'' \<notin> set endpoint"
  then show "ParsePath m endpoint d = Inl IndexOutOfRange"
    by (simp add: ParsePath_def recomprise_panic)
next
  assume "CHR ''/'' \<notin> set endpoint"
  then show "PathParameters endpoint vaultPath = Inl IndexOutOfRange"
    by (simp add: PathParameters_def pattern_panic)
qed

text \<open>Both cases occur: the example template, and the mount name alone.\<close>

theorem mount_segment_index_witness:
  "CHR ''/'' \<in> set ''/transform/role/{name}'' \<and> CHR ''/'' \<notin> set ''transform''
   \<and> ParsePath ''transform'' ''/transform/role/{name}'' Map.empty \<noteq> Inl IndexOutOfRange
   \<and> PathParameters ''/transform/role/{name}'' ''/transform/role/my-role'' \<noteq> Inl IndexOutOfRange
   \<and> ParsePath ''transform'' ''transform'' Map.empty = Inl IndexOutOfRange
   \<and> PathParameters ''transform'' ''/transform/role/my-role'' = Inl IndexOutOfRange"
  using mount_segment_index [of "''/transform/role/{name}''" "''transform''" Map.empty
      "''/transform/role/my-role''"]
    mount_segment_index [of "''transform''" "''transform''" Map.empty
      "''/transform/role/my-role''"]
  by simp

section \<open>The rendered path\<close>

lemma recomprise_shape:
  assumes "CHR ''/'' \<in> set endpoint"
  shows "recomprise m endpoint =
           Inr (''/'' @ m @ concat (map ((@) ''/'') (drop 2 (Split endpoint CHR ''/''))))"
proof -
  from assms have "\<not> length (Split endpoint CHR ''/'') \<le> Suc 0"
    by (simp add: Split_short_iff)
  then obtain a b r where "Split endpoint CHR ''/'' = a # b # r"
    by (cases "Split endpoint CHR ''/''"; cases "tl (Split endpoint CHR ''/'')") auto
  then show ?thesis
    using assms by (simp add: recomprise_ok Join_Cons)
qed

lemma recomprise_segments:
  assumes "CHR ''/'' \<in> set endpoint" "CHR ''/'' \<notin> set m"
  shows "Split (''/'' @ m @ concat (map ((@) ''/'') (drop 2 (Split endpoint CHR ''/'')))) CHR ''/''
           = (Split endpoint CHR ''/'')[0 := [], 1 := m]"
proof -
  from assms have "\<not> length (Split endpoint CHR ''/'') \<le> Suc 0"
    by (simp add: Split_short_iff)
  then obtain a b r where abr: "Split endpoint CHR ''/'' = a # b # r"
    by (cases "Split endpoint CHR ''/''"; cases "tl (Split endpoint CHR ''/'')") auto
  have "\<forall>seg \<in> set (a # b # r). CHR ''/'' \<notin> set seg"
    using Split_segments [of endpoint "CHR ''/''"] abr by simp
  then have "Split (Join ([] # m # r) ''/'') CHR ''/'' = [] # m # r"
    using assms(2) by (intro Split_Join) auto
  then show ?thesis
    using abr by (simp add: Join_Cons)
qed

lemma ParsePath_loop_skip:
  "CHR ''{'' \<notin> set pre \<Longrightarrow>
     ParsePath_loop d fs (pre @ s)
       = (case ParsePath_loop d fs s of Inl e \<Rightarrow> Inl e | Inr r \<Rightarrow> Inr (pre @ r))"
  by (induction fs arbitrary: s)
     (simp_all add: ReplaceAll_skip split: option.splits fieldValue.splits)

lemma ParsePath_loop_total:
  "\<forall>k. d k \<noteq> Some OtherValue \<Longrightarrow> \<exists>out. ParsePath_loop d fs s = Inr out"
proof (induction fs arbitrary: s)
  case Nil
  then show ?case by simp
next
  case (Cons f fs)
  have "GetOk d f \<noteq> Some OtherValue"
    using Cons.prems by (auto simp: GetOk_def split: option.splits fieldValue.splits if_splits)
  then show ?case
    using Cons.IH [OF Cons.prems] by (auto split: option.splits fieldValue.splits)
qed

lemma ParsePath_loop_unset: "ParsePath_loop Map.empty fs s = Inr s"
  by (induction fs) (simp_all add: GetOk_def)

text \<open>
  Claim C6, as stated: for every endpoint template with a \<open>/\<close>, \<open>ParsePath\<close> replaces the
  segment at index 1 with the mount path and returns a path with a single leading \<open>/\<close>.
  The source prepends one \<open>/\<close> to whatever the mount path is and checks nothing about
  it: with the empty mount path, and with a mount path that begins with \<open>/\<close>, the
  returned path begins with \<open>//\<close>.
\<close>

theorem ParsePath_two_leading_slashes:
  "ParsePath [] ''/transform/role/{name}'' [''name'' \<mapsto> StringValue ''my-role'']
     = Inr ''//role/my-role''
   \<and> ParsePath ''/transform'' ''/transform/role/{name}'' [''name'' \<mapsto> StringValue ''my-role'']
     = Inr ''//transform/role/my-role''"
  by (simp add: ParsePath_def recomprise_def Split_def FieldsFunc_def isBrace_def GetOk_def
      ReplaceAll.simps)

text \<open>
  Claim C6, amended: for every endpoint with a \<open>/\<close>, \<open>ParsePath\<close> drops the piece before
  the first \<open>/\<close>, puts the mount path in the place of the piece at index 1 and prepends
  one \<open>/\<close>. With no field set it returns \<open>/\<close>, the mount path, and the remaining pieces
  of the template, each after a \<open>/\<close>; when the mount path has no \<open>/\<close> these are the
  pieces of the template with piece 1 replaced and piece 0 empty. With fields set and a
  mount path without \<open>{\<close>, it returns \<open>/\<close>, the mount path, and what the placeholder
  loop makes of the remaining pieces (a string, when every field is a string). The
  leading \<open>/\<close> is single when, moreover, the mount path is not empty and does not begin
  with \<open>/\<close>. On the example it returns \<open>/transform/role/my-role\<close>.
\<close>

theorem ParsePath_mount_substitution:
  "CHR ''/'' \<in> set endpoint \<Longrightarrow>
   rest = concat (map ((@) ''/'') (drop 2 (Split endpoint CHR ''/''))) \<Longrightarrow>
     ParsePath m endpoint Map.empty = Inr (''/'' @ m @ rest)
   \<and> (CHR ''/'' \<notin> set m \<longrightarrow>
        Split (''/'' @ m @ rest) CHR ''/'' = (Split endpoint CHR ''/'')[0 := [], 1 := m])
   \<and> (CHR ''{'' \<notin> set m \<longrightarrow>
        ParsePath m endpoint d =
          (case ParsePath_loop d (FieldsFunc (''/'' @ m @ rest) isBrace) rest of
             Inl e \<Rightarrow> Inl e
           | Inr resolved \<Rightarrow> Inr (''/'' @ m @ resolved)))
   \<and> (CHR ''{'' \<notin> set m \<and> (\<forall>k. d k \<noteq> Some OtherValue) \<longrightarrow>
        (\<exists>resolved. ParsePath m endpoint d = Inr (''/'' @ m @ resolved)))
   \<and> (CHR ''{'' \<notin> set m \<and> (\<forall>k. d k \<noteq> Some OtherValue) \<and> m \<noteq> [] \<and> hd m \<noteq> CHR ''/'' \<longrightarrow>
        (\<exists>c resolved. ParsePath m endpoint d = Inr (CHR ''/'' # c # resolved) \<and> c \<noteq> CHR ''/''))
   \<and> ParsePath ''transform'' ''/transform/role/{name}'' [''name'' \<mapsto> StringValue ''my-role'']
      = Inr ''/transform/role/my-role''"
proof -
  assume sl: "CHR ''/'' \<in> set endpoint"
    and rest: "rest = concat (map ((@) ''/'') (drop 2 (Split endpoint CHR ''/'')))"
  have rec: "recomprise m endpoint = Inr (''/'' @ m @ rest)"
    unfolding rest by (rule recomprise_shape [OF sl])
  have 1: "ParsePath m endpoint Map.empty = Inr (''/'' @ m @ rest)"
    unfolding ParsePath_def rec sum.case by (rule ParsePath_loop_unset)
  have 2: "CHR ''/'' \<notin> set m \<longrightarrow>
        Split (''/'' @ m @ rest) CHR ''/'' = (Split endpoint CHR ''/'')[0 := [], 1 := m]"
    unfolding rest using recomprise_segments [OF sl] by blast
  have skip: "CHR ''{'' \<notin> set m \<Longrightarrow> ParsePath m endpoint d =
          (case ParsePath_loop d (FieldsFunc (''/'' @ m @ rest) isBrace) rest of
             Inl e \<Rightarrow> Inl e
           | Inr resolved \<Rightarrow> Inr (''/'' @ m @ resolved))"
  proof -
    assume "CHR ''{'' \<notin> set m"
    then have "CHR ''{'' \<notin> set (''/'' @ m)" by simp
    from ParsePath_loop_skip [OF this, of d _ rest] show ?thesis
      unfolding ParsePath_def rec sum.case by (simp split: sum.splits)
  qed
  have tot: "CHR ''{'' \<notin> set m \<and> (\<forall>k. d k \<noteq> Some OtherValue) \<Longrightarrow>
        \<exists>resolved. ParsePath m endpoint d = Inr (''/'' @ m @ resolved)"
  proof -
    assume a: "CHR ''{'' \<notin> set m \<and> (\<forall>k. d k \<noteq> Some OtherValue)"
    then obtain out where
      "ParsePath_loop d (FieldsFunc (''/'' @ m @ rest) isBrace) rest = Inr out"
      using ParsePath_loop_total by blast
    with skip a show ?thesis by simp
  qed
  have single: "CHR ''{'' \<notin> set m \<and> (\<forall>k. d k \<noteq> Some OtherValue) \<and> m \<noteq> [] \<and> hd m \<noteq> CHR ''/'' \<Longrightarrow>
        \<exists>c resolved. ParsePath m endpoint d = Inr (CHR ''/'' # c # resolved) \<and> c \<noteq> CHR ''/''"
  proof -
    assume a: "CHR ''{'' \<notin> set m \<and> (\<forall>k. d k \<noteq> Some OtherValue) \<and> m \<noteq> [] \<and> hd m \<noteq> CHR ''/''"
    then obtain c m' where m: "m = c # m'" "c \<noteq> CHR ''/''" by (cases m) auto
    from tot a obtain resolved where "ParsePath m endpoint d = Inr (''/'' @ m @ resolved)"
      by blast
    with m have "ParsePath m endpoint d = Inr (CHR ''/'' # c # (m' @ resolved)) \<and> c \<noteq> CHR ''/''"
      by simp
    then show ?thesis by blast
  qed
  have ex: "ParsePath ''transform'' ''/transform/role/{name}'' [''name'' \<mapsto> StringValue ''my-role'']
      = Inr ''/transform/role/my-role''"
    by (simp add: ParsePath_def recomprise_def Split_def FieldsFunc_def isBrace_def GetOk_def
        ReplaceAll.simps)
  from 1 2 skip tot single ex show ?thesis by blast
qed

text \<open>The example template with another mount path and a second placeholder.\<close>

theorem ParsePath_mount_substitution_witness:
  "CHR ''/'' \<in> set ''/transform/role/{name}/{version}''
   \<and> ''/role/{name}/{version}''
       = concat (map ((@) ''/'') (drop 2 (Split ''/transform/role/{name}/{version}'' CHR ''/'')))
   \<and> CHR ''/'' \<notin> set ''secrets'' \<and> CHR ''{'' \<notin> set ''secrets''
   \<and> ''secrets'' \<noteq> [] \<and> hd ''secrets'' \<noteq> CHR ''/''
   \<and> ParsePath ''secrets'' ''/transform/role/{name}/{version}'' Map.empty
       = Inr ''/secrets/role/{name}/{version}''
   \<and> Split ''/secrets/role/{name}/{version}'' CHR ''/''
       = [[], ''secrets'', ''role'', ''{name}'', ''{version}'']
   \<and> ParsePath_loop [''name'' \<mapsto> StringValue ''my-role'']
         (FieldsFunc ''/secrets/role/{name}/{version}'' isBrace) ''/role/{name}/{version}''
       = Inr ''/role/my-role/{version}''
   \<and> ParsePath ''secrets'' ''/transform/role/{name}/{version}'' [''name'' \<mapsto> StringValue ''my-role'']
       = Inr ''/secrets/role/my-role/{version}''
   \<and> (\<exists>c resolved. ParsePath ''secrets'' ''/transform/role/{name}/{version}''
           [''name'' \<mapsto> StringValue ''my-role''] = Inr (CHR ''/'' # c # resolved) \<and> c \<noteq> CHR ''/'')"
proof -
  have r: "''/role/{name}/{version}''
       = concat (map ((@) ''/'') (drop 2 (Split ''/transform/role/{name}/{version}'' CHR ''/'')))"
    by (simp add: Split_def)
  have sl: "CHR ''/'' \<in> set ''/transform/role/{name}/{version}''" by simp
  have l: "ParsePath_loop [''name'' \<mapsto> StringValue ''my-role'']
         (FieldsFunc ''/secrets/role/{name}/{version}'' isBrace) ''/role/{name}/{version}''
       = Inr ''/role/my-role/{version}''"
    by (simp add: FieldsFunc_def isBrace_def GetOk_def ReplaceAll.simps)
  have s: "\<forall>k. [''name'' \<mapsto> StringValue ''my-role''] k \<noteq> Some OtherValue" by simp
  have sp: "Split ''/secrets/role/{name}/{version}'' CHR ''/''
       = [[], ''secrets'', ''role'', ''{name}'', ''{version}'']"
    by (simp add: Split_def)
  from ParsePath_mount_substitution [OF sl r, of "''secrets''" "[''name'' \<mapsto> StringValue ''my-role'']"]
    r l s sp
  show ?thesis by (simp del: ParsePath_loop.simps)
qed

section \<open>Placeholders that are not resolved\<close>

lemma fieldsFrom_fields:
  "\<forall>c \<in> set cur. \<not> f c \<Longrightarrow>
     \<forall>x \<in> set (fieldsFrom f cur s). x \<noteq> [] \<and> (\<forall>c \<in> set x. \<not> f c)"
proof (induction s arbitrary: cur)
  case Nil
  then show ?case by simp
next
  case (Cons a s)
  have e: "\<forall>x \<in> set (fieldsFrom f [] s). x \<noteq> [] \<and> (\<forall>c \<in> set x. \<not> f c)"
    by (rule Cons.IH) simp
  have n: "\<not> f a \<Longrightarrow> \<forall>x \<in> set (fieldsFrom f (cur @ [a]) s). x \<noteq> [] \<and> (\<forall>c \<in> set x. \<not> f c)"
    using Cons.prems by (intro Cons.IH) simp
  show ?case using e n Cons.prems by simp
qed

lemma FieldsFunc_fields:
  "x \<in> set (FieldsFunc s isBrace) \<Longrightarrow> x \<noteq> [] \<and> CHR ''{'' \<notin> set x \<and> CHR ''}'' \<notin> set x"
  using fieldsFrom_fields [of "[]" isBrace s] by (auto simp: FieldsFunc_def isBrace_def)

lemma ReplaceAll_keeps_token:
  assumes "f \<noteq> n" "CHR ''{'' \<notin> set n" "CHR ''}'' \<notin> set n"
    "CHR ''{'' \<notin> set f" "CHR ''}'' \<notin> set f"
  shows "\<exists>a' b'. ReplaceAll (a @ ''{'' @ n @ ''}'' @ b) (''{'' @ f @ ''}'') v
           = a' @ ''{'' @ n @ ''}'' @ b'"
proof (induction "length a" arbitrary: a rule: less_induct)
  case less
  let ?old = "''{'' @ f @ ''}''"
  let ?X = "''{'' @ n @ ''}'' @ b"
  show ?case
  proof (cases a)
    case Nil
    then show ?thesis
      using ReplaceAll_other_token [OF assms(1,2,3,5), of b v] by (metis append_Nil)
  next
    case (Cons c a2)
    show ?thesis
    proof (cases "prefix ?old (a @ ?X)")
      case True
      have "prefix ?old a"
      proof (rule ccontr)
        assume np: "\<not> prefix ?old a"
        with True obtain us where us: "?old = a @ us" "prefix us ?X"
          by (auto simp: prefix_append)
        with np have "us \<noteq> []" by auto
        with us(2) obtain us' where "us = CHR ''{'' # us'"
          by (cases us) auto
        with us(1) Cons have "f @ ''}'' = a2 @ CHR ''{'' # us'" by simp
        then have "CHR ''{'' \<in> set (f @ ''}'')" by simp
        with assms(4) show False by simp
      qed
      then obtain a4 where a4: "a = ?old @ a4"
        by (auto simp: prefix_def)
      then have "length a4 < length a" by simp
      from less [OF this] obtain a' b' where
        "ReplaceAll (a4 @ ?X) ?old v = a' @ ''{'' @ n @ ''}'' @ b'" by blast
      moreover have "ReplaceAll (a @ ?X) ?old v = v @ ReplaceAll (a4 @ ?X) ?old v"
        using ReplaceAll_hit [of ?old "a4 @ ?X" v] a4 by simp
      ultimately have "ReplaceAll (a @ ?X) ?old v = (v @ a') @ ''{'' @ n @ ''}'' @ b'"
        by simp
      then show ?thesis by blast
    next
      case False
      have "length a2 < length a" using Cons by simp
      from less [OF this] obtain a' b' where
        "ReplaceAll (a2 @ ?X) ?old v = a' @ ''{'' @ n @ ''}'' @ b'" by blast
      moreover have "ReplaceAll (a @ ?X) ?old v = c # ReplaceAll (a2 @ ?X) ?old v"
        using False Cons ReplaceAll_miss [of ?old c "a2 @ ?X" v] by simp
      ultimately have "ReplaceAll (a @ ?X) ?old v = (c # a') @ ''{'' @ n @ ''}'' @ b'"
        by simp
      then show ?thesis by blast
    qed
  qed
qed

lemma ReplaceAll_keeps_sublist:
  assumes "f \<noteq> n" "CHR ''{'' \<notin> set n" "CHR ''}'' \<notin> set n"
    "CHR ''{'' \<notin> set f" "CHR ''}'' \<notin> set f"
    and "sublist (''{'' @ n @ ''}'') s"
  shows "sublist (''{'' @ n @ ''}'') (ReplaceAll s (''{'' @ f @ ''}'') v)"
proof -
  from assms(6) obtain a b where "s = a @ (''{'' @ n @ ''}'') @ b"
    by (auto simp: sublist_def)
  then have s: "s = a @ ''{'' @ n @ ''}'' @ b" by simp
  from ReplaceAll_keeps_token [OF assms(1-5), of a b v] obtain a' b' where
    "ReplaceAll s (''{'' @ f @ ''}'') v = a' @ (''{'' @ n @ ''}'') @ b'"
    unfolding s by auto
  then show ?thesis unfolding sublist_def by blast
qed

lemma ParsePath_loop_keeps_token:
  assumes "GetOk d n = None" "CHR ''{'' \<notin> set n" "CHR ''}'' \<notin> set n"
    and "\<forall>f \<in> set fs. CHR ''{'' \<notin> set f \<and> CHR ''}'' \<notin> set f"
    and "sublist (''{'' @ n @ ''}'') s"
    and "ParsePath_loop d fs s = Inr out"
  shows "sublist (''{'' @ n @ ''}'') out"
  using assms(4,5,6)
proof (induction fs arbitrary: s)
  case Nil
  then show ?case by simp
next
  case (Cons f fs)
  show ?case
  proof (cases "GetOk d f")
    case None
    then show ?thesis using Cons by simp
  next
    case (Some raw)
    with Cons.prems(3) obtain v where raw: "raw = StringValue v"
      by (cases raw) simp_all
    from Some assms(1) have "f \<noteq> n" by auto
    then have "sublist (''{'' @ n @ ''}'') (ReplaceAll s (''{'' @ f @ ''}'') v)"
      using Cons.prems assms(2,3) by (intro ReplaceAll_keeps_sublist) simp_all
    then show ?thesis using Some raw Cons by simp
  qed
qed

text \<open>
  Claim C5, as stated: for every endpoint template, mount path and field lookup,
  \<open>ParsePath\<close> returns a string, with no error and no panic, and passes unresolved
  placeholders through. The source has two unchecked steps. It indexes piece 1 of the
  split endpoint, which panics on an endpoint without a \<open>/\<close>; and it asserts the value
  of every field it finds set to be a string, which panics on a field of another type.
\<close>

theorem ParsePath_panics:
  "ParsePath ''transform'' ''transform'' Map.empty = Inl IndexOutOfRange
   \<and> ParsePath ''transform'' ''/transform/role/{name}'' [''name'' \<mapsto> OtherValue]
       = Inl TypeAssertion"
  by (simp add: ParsePath_def recomprise_def Split_def FieldsFunc_def isBrace_def GetOk_def)

text \<open>
  Claim C5, amended: for every endpoint with at least one \<open>/\<close>, every mount path and
  every field lookup whose set fields are strings, \<open>ParsePath\<close> returns a string, and
  every placeholder \<open>{n}\<close> of the rebuilt path whose name the lookup does not report as
  set is still in the returned path. With no field set, the example template comes back
  unchanged.
\<close>

theorem ParsePath_never_fails:
  "CHR ''/'' \<in> set endpoint \<Longrightarrow> \<forall>k. d k \<noteq> Some OtherValue \<Longrightarrow>
     (\<exists>recomprised out.
        recomprise m endpoint = Inr recomprised \<and> ParsePath m endpoint d = Inr out \<and>
        (\<forall>n. CHR ''{'' \<notin> set n \<and> CHR ''}'' \<notin> set n \<and> GetOk d n = None \<and>
               sublist (''{'' @ n @ ''}'') recomprised
             \<longrightarrow> sublist (''{'' @ n @ ''}'') out))
   \<and> ParsePath ''transform'' ''/transform/role/{name}'' Map.empty
       = Inr ''/transform/role/{name}''"
proof (intro conjI)
  assume sl: "CHR ''/'' \<in> set endpoint" and str: "\<forall>k. d k \<noteq> Some OtherValue"
  from sl obtain r where r: "recomprise m endpoint = Inr r"
    using recomprise_shape by blast
  from ParsePath_loop_total [OF str] obtain out where
    out: "ParsePath_loop d (FieldsFunc r isBrace) r = Inr out" by blast
  have "\<forall>f \<in> set (FieldsFunc r isBrace). CHR ''{'' \<notin> set f \<and> CHR ''}'' \<notin> set f"
    using FieldsFunc_fields by blast
  then have "\<forall>n. CHR ''{'' \<notin> set n \<and> CHR ''}'' \<notin> set n \<and> GetOk d n = None \<and>
               sublist (''{'' @ n @ ''}'') r
             \<longrightarrow> sublist (''{'' @ n @ ''}'') out"
    using ParsePath_loop_keeps_token [OF _ _ _ _ _ out] by blast
  then show "\<exists>recomprised out.
        recomprise m endpoint = Inr recomprised \<and> ParsePath m endpoint d = Inr out \<and>
        (\<forall>n. CHR ''{'' \<notin> set n \<and> CHR ''}'' \<notin> set n \<and> GetOk d n = None \<and>
               sublist (''{'' @ n @ ''}'') recomprised
             \<longrightarrow> sublist (''{'' @ n @ ''}'') out)"
    using r out by (simp add: ParsePath_def)
next
  show "ParsePath ''transform'' ''/transform/role/{name}'' Map.empty
       = Inr ''/transform/role/{name}''"
    by (simp add: ParsePath_def recomprise_def Split_def FieldsFunc_def isBrace_def GetOk_def)
qed

text \<open>A template with two placeholders, of which the lookup knows one.\<close>

theorem ParsePath_never_fails_witness:
  "CHR ''/'' \<in> set ''/transform/role/{name}/{version}''
   \<and> GetOk [''name'' \<mapsto> StringValue ''my-role''] ''version'' = None
   \<and> recomprise ''secrets'' ''/transform/role/{name}/{version}''
        = Inr ''/secrets/role/{name}/{version}''
   \<and> sublist ''{version}'' ''/secrets/role/{name}/{version}''
   \<and> (\<exists>out. ParsePath ''secrets'' ''/transform/role/{name}/{version}''
          [''name'' \<mapsto> StringValue ''my-role''] = Inr out \<and> sublist ''{version}'' out)"
proof -
  have s: "sublist ''{version}'' ''/secrets/role/{name}/{version}''"
    unfolding sublist_def by (rule exI [of _ "''/secrets/role/{name}/''"], rule exI [of _ "[]"]) simp
  have r: "recomprise ''secrets'' ''/transform/role/{name}/{version}''
        = Inr ''/secrets/role/{name}/{version}''"
    by (simp add: recomprise_def Split_def)
  have g: "GetOk [''name'' \<mapsto> StringValue ''my-role''] ''version'' = None"
    by (simp add: GetOk_def)
  have sl: "CHR ''/'' \<in> set ''/transform/role/{name}/{version}''" by simp
  have str: "\<forall>k. [''name'' \<mapsto> StringValue ''my-role''] k \<noteq> Some OtherValue" by simp
  from ParsePath_never_fails [OF sl str, of "''secrets''"]
  have "\<exists>recomprised out.
        recomprise ''secrets'' ''/transform/role/{name}/{version}'' = Inr recomprised \<and>
        ParsePath ''secrets'' ''/transform/role/{name}/{version}''
          [''name'' \<mapsto> StringValue ''my-role''] = Inr out \<and>
        (\<forall>n. CHR ''{'' \<notin> set n \<and> CHR ''}'' \<notin> set n \<and>
               GetOk [''name'' \<mapsto> StringValue ''my-role''] n = None \<and>
               sublist (''{'' @ n @ ''}'') recomprised
             \<longrightarrow> sublist (''{'' @ n @ ''}'') out)"
    by (rule conjunct1)
  then obtain rc out where
    rc: "recomprise ''secrets'' ''/transform/role/{name}/{version}'' = Inr rc"
    and o: "ParsePath ''secrets'' ''/transform/role/{name}/{version}''
        [''name'' \<mapsto> StringValue ''my-role''] = Inr out"
    and a': "\<forall>n. CHR ''{'' \<notin> set n \<and> CHR ''}'' \<notin> set n \<and>
               GetOk [''name'' \<mapsto> StringValue ''my-role''] n = None \<and>
               sublist (''{'' @ n @ ''}'') rc
             \<longrightarrow> sublist (''{'' @ n @ ''}'') out"
    by blast
  from rc r have "rc = ''/secrets/role/{name}/{version}''" by simp
  with a' have a: "\<forall>n. CHR ''{'' \<notin> set n \<and> CHR ''}'' \<notin> set n \<and>
               GetOk [''name'' \<mapsto> StringValue ''my-role''] n = None \<and>
               sublist (''{'' @ n @ ''}'') ''/secrets/role/{name}/{version}''
             \<longrightarrow> sublist (''{'' @ n @ ''}'') out"
    by blast
  from a [rule_format, of "''version''"] s g have "sublist ''{version}'' out" by simp
  with o have "\<exists>out. ParsePath ''secrets'' ''/transform/role/{name}/{version}''
          [''name'' \<mapsto> StringValue ''my-role''] = Inr out \<and> sublist ''{version}'' out"
    by blast
  with sl g r s show ?thesis by (intro conjI)
qed

section \<open>Templates of the documented grammar\<close>

lemma placeholder_path: "isPlaceholder ''{path}''"
  by (simp add: isPlaceholder_def isValidCaptureName_def isalnum_def)

lemma wellFormed_pattern:
  assumes "wellFormed endpoint"
  shows "\<exists>pat re. pattern endpoint = Inr pat \<and> Compile pat = Inr [re]"
proof -
  from assms obtain a b r where s: "Split endpoint CHR ''/'' = a # b # r"
    and l: "list_all (\<lambda>seg. isLiteral seg \<or> isPlaceholder seg) (a # r)"
    by (auto simp: wellFormed_def split: list.splits)
  from s have "\<not> length (Split endpoint CHR ''/'') \<le> Suc 0" by simp
  then have "CHR ''/'' \<in> set endpoint" by (simp add: Split_short_iff)
  then have p: "pattern endpoint = Inr (Join (map toGroup (a # ''{path}'' # r)) ''/'')"
    using s by (simp add: pattern_ok)
  have "\<forall>seg \<in> set (a # ''{path}'' # r). isLiteral seg \<or> isPlaceholder seg"
    using l placeholder_path by (simp add: list_all_iff)
  from Compile_segments [OF this] p show ?thesis by blast
qed

lemma wellFormed_role: "wellFormed ''/transform/role/{name}''"
  by (simp add: wellFormed_def Split_def isLiteral_def isPlain_def isSpecial_def isPlaceholder_def
      isValidCaptureName_def isalnum_def)

text \<open>
  Claim C4, as stated: for every template of the documented grammar (segments separated by
  \<open>/\<close>, each a literal or a single \<open>{name}\<close> placeholder) the pattern compiles, so
  \<open>PathParameters\<close> never returns the compilation error. The grammar does not say what
  a name is, and a placeholder whose name is not a capture name, as \<open>{role-name}\<close>, is
  turned into the group \<open>(?P<role-name>.+)\<close>, which \<open>regexp.Compile\<close> rejects.
\<close>

theorem PathParameters_hyphen_name_CompileError:
  "PathParameters ''/transform/role/{role-name}'' ''/transform/role/my-role'' = Inl CompileError"
  by (simp add: PathParameters_def pattern_def toGroup_def HasPrefix_def Split_def
      ReplaceAll.simps Compile.simps isPlain_def isSpecial_def isValidCaptureName_def isalnum_def)

text \<open>
  Claim C4, amended: for every template whose segments (the overwritten one at index 1
  apart) are literals of plain characters (ASCII, not special in the pattern syntax) or placeholders
  \<open>{name}\<close> with a name of letters, digits and underscores, the pattern compiles, and
  \<open>PathParameters\<close> returns a parameter map or the ParseError on every concrete path.
\<close>

theorem wellFormed_never_CompileError:
  "wellFormed endpoint \<Longrightarrow>
     (\<exists>pat re. pattern endpoint = Inr pat \<and> Compile pat = Inr re)
     \<and> (PathParameters endpoint vaultPath = Inl ParseError
          \<or> (\<exists>m. PathParameters endpoint vaultPath = Inr m))"
proof
  assume w: "wellFormed endpoint"
  from wellFormed_pattern [OF w] obtain pat re where
    p: "pattern endpoint = Inr pat" "Compile pat = Inr [re]" by blast
  then show "\<exists>pat re. pattern endpoint = Inr pat \<and> Compile pat = Inr re" by blast
  show "PathParameters endpoint vaultPath = Inl ParseError
          \<or> (\<exists>m. PathParameters endpoint vaultPath = Inr m)"
  proof (cases "PathParameters endpoint vaultPath")
    case (Inl e)
    then have "e = ParseError"
      using p PathParameters_loop_error by (simp add: PathParameters_def)
    with Inl show ?thesis by simp
  next
    case (Inr m)
    then show ?thesis by simp
  qed
qed

theorem wellFormed_never_CompileError_witness:
  "wellFormed ''/transform/role/{name}''
   \<and> pattern ''/transform/role/{name}'' = Inr ''/(?P<path>.+)/role/(?P<name>.+)''
   \<and> PathParameters ''/transform/role/{name}'' ''/transform/roles'' = Inl ParseError"
proof -
  have "PathParameters ''/transform/role/{name}'' ''/transform/roles'' \<noteq> Inr m" for m
    by (simp only: PathParameters_def pattern_role sum.case Compile_role)
       (simp add: SubexpNames_def dotRun_def eval_nat_numeral)
  with wellFormed_never_CompileError [OF wellFormed_role, of "''/transform/roles''"]
    wellFormed_role pattern_role
  show ?thesis by auto
qed

section \<open>Captured values\<close>

text \<open>
  Claim C8, as stated: on every endpoint template and concrete path on which
  \<open>PathParameters\<close> succeeds, every value of the returned map is a non-empty string. The
  template is copied into the pattern as it is, and a literal segment may hold pattern
  syntax. In \<open>/transform/role|x/{name}\<close> the \<open>|\<close> splits the pattern into the
  alternatives \<open>/(?P<path>.+)/role\<close> and \<open>x/(?P<name>.+)\<close>; on \<open>/m/role\<close> the first
  one matches, the group \<open>name\<close> takes no part in the match, and the map holds the empty
  string for it.
\<close>

theorem PathParameters_empty_capture:
  "PathParameters ''/transform/role|x/{name}'' ''/m/role''
     = Inr [''path'' \<mapsto> ''m'', ''name'' \<mapsto> []]"
proof -
  have p: "pattern ''/transform/role|x/{name}'' = Inr ''/(?P<path>.+)/role|x/(?P<name>.+)''"
    by (simp add: pattern_def toGroup_def HasPrefix_def Split_def ReplaceAll.simps)
  have c: "Compile ''/(?P<path>.+)/role|x/(?P<name>.+)'' =
     Inr [[Lit CHR ''/'', Named ''path'', Lit CHR ''/'', Lit CHR ''r'', Lit CHR ''o'',
           Lit CHR ''l'', Lit CHR ''e''],
          [Lit CHR ''x'', Lit CHR ''/'', Named ''name'']]"
    by (simp add: Compile.simps addItem_def isPlain_def isSpecial_def isValidCaptureName_def
        isalnum_def)
  have f: "FindStringSubmatch
     [[Lit CHR ''/'', Named ''path'', Lit CHR ''/'', Lit CHR ''r'', Lit CHR ''o'',
       Lit CHR ''l'', Lit CHR ''e''],
      [Lit CHR ''x'', Lit CHR ''/'', Named ''name'']] ''/m/role''
     = [''/m/role'', ''m'', []]"
    by (simp add: dotRun_def eval_nat_numeral)
  show ?thesis
    by (simp only: PathParameters_def p sum.case c f) (simp add: SubexpNames_def)
qed

text \<open>
  Claim C8, amended: for every endpoint template of the documented grammar whose
  literals are plain characters and whose placeholder names are capture names, and every
  concrete path on which \<open>PathParameters\<close> succeeds, every value of the returned map is a
  non-empty string, since each named group \<open>.+\<close> takes one character or more. The result
  is a map, so a key has one value, and its keys are the names of the groups of the
  compiled pattern.
\<close>

theorem PathParameters_values_nonempty:
  "wellFormed endpoint \<Longrightarrow> PathParameters endpoint vaultPath = Inr m \<Longrightarrow>
     (\<forall>k v. m k = Some v \<longrightarrow> v \<noteq> [])
     \<and> (\<exists>pat re. pattern endpoint = Inr pat \<and> Compile pat = Inr [re] \<and> dom m = set (groupNames re))"
proof
  assume w: "wellFormed endpoint" and a: "PathParameters endpoint vaultPath = Inr m"
  from wellFormed_pattern [OF w] obtain pat re where
    p: "pattern endpoint = Inr pat" "Compile pat = Inr [re]" by blast
  with a have l: "PathParameters_loop (enumerate 0 (SubexpNames [re]))
              (FindStringSubmatch [re] vaultPath) Map.empty = Inr m"
    by (simp add: PathParameters_def)
  have "\<forall>k v. Map.empty k = Some v \<longrightarrow> v \<noteq> []" by simp
  from PathParameters_loop_values [OF l this Find_single_captures]
  show "\<forall>k v. m k = Some v \<longrightarrow> v \<noteq> []" .
  from PathParameters_loop_dom [OF l] have "dom m = {n \<in> set (concat (map groupNames [re])). n \<noteq> []}"
    by (simp only: SubexpNames_def enumerate_names dom_empty Un_empty_left)
  with Compile_names [OF p(2)] have "dom m = set (groupNames re)" by auto
  with p show "\<exists>pat re. pattern endpoint = Inr pat \<and> Compile pat = Inr [re] \<and> dom m = set (groupNames re)"
    by blast
qed

text \<open>The example template and the path that \<open>ParsePath\<close> renders for it.\<close>

theorem PathParameters_values_nonempty_witness:
  "wellFormed ''/transform/role/{name}''
   \<and> PathParameters ''/transform/role/{name}'' ''/transform/role/my-role''
     = Inr [''path'' \<mapsto> ''transform'', ''name'' \<mapsto> ''my-role'']
   \<and> [''path'' \<mapsto> ''transform'', ''name'' \<mapsto> ''my-role''] ''name'' = Some ''my-role''
   \<and> ''my-role'' \<noteq> []
   \<and> dom [''path'' \<mapsto> ''transform'', ''name'' \<mapsto> ''my-role''] = {''path'', ''name''}"
  using PathParameters_values_nonempty [OF wellFormed_role PathParameters_role]
    wellFormed_role PathParameters_role
  by auto

section \<open>Where the pattern may match\<close>

lemma Find_skip:
  "CHR ''/'' \<notin> set pre \<Longrightarrow>
     FindStringSubmatch [Lit CHR ''/'' # re] (pre @ s) = FindStringSubmatch [Lit CHR ''/'' # re] s"
  by (induction pre) auto

lemma Split_leading_slash: "Split (CHR ''/'' # s) CHR ''/'' = [] # Split s CHR ''/''"
  by (simp add: Split_def)

lemma wellFormed_pattern_slash:
  assumes "wellFormed endpoint" "prefix ''/'' endpoint"
  shows "\<exists>pat re. pattern endpoint = Inr pat \<and> Compile pat = Inr [Lit CHR ''/'' # re]"
proof -
  from assms(2) obtain e where e: "endpoint = CHR ''/'' # e" by (auto simp: prefix_def)
  with assms(1) obtain b r where s: "Split endpoint CHR ''/'' = [] # b # r"
    and l: "list_all (\<lambda>seg. isLiteral seg \<or> isPlaceholder seg) r"
    by (auto simp: wellFormed_def Split_leading_slash split: list.splits)
  from e have sl: "CHR ''/'' \<in> set endpoint" by simp
  have "toGroup [] = []" by (rule toGroup_literal) (simp add: isLiteral_def)
  then have p: "pattern endpoint = Inr (CHR ''/'' # Join (map toGroup (''{path}'' # r)) ''/'')"
    using pattern_ok [OF sl] s by (cases r) simp_all
  have "\<forall>seg \<in> set (''{path}'' # r). isLiteral seg \<or> isPlaceholder seg"
    using l placeholder_path by (simp add: list_all_iff)
  from Compile_segments [OF this] obtain re where
    "Compile (Join (map toGroup (''{path}'' # r)) ''/'') = Inr [re]" by blast
  from Compile_slash [OF this] p show ?thesis by blast
qed

text \<open>
  Claim C3, as stated: the match is anchored, so \<open>PathParameters\<close> succeeds only when the
  entire concrete path matches the pattern, and a path that merely contains a matching
  part, with extra segments before or after it, is rejected. It is not:
  \<open>FindStringSubmatch\<close> searches the path for a match. The path
  \<open>extra/transform/role/my-role\<close> does not match the pattern of the example template
  from its start, and the extraction succeeds on the part after \<open>extra\<close>.
\<close>

theorem PathParameters_matches_inside:
  "PathParameters ''/transform/role/{name}'' ''extra/transform/role/my-role''
     = Inr [''path'' \<mapsto> ''transform'', ''name'' \<mapsto> ''my-role'']
   \<and> matchHere
        [Lit CHR ''/'', Named ''path'', Lit CHR ''/'', Lit CHR ''r'', Lit CHR ''o'',
         Lit CHR ''l'', Lit CHR ''e'', Lit CHR ''/'', Named ''name'']
        ''extra/transform/role/my-role'' = None"
proof -
  have "FindStringSubmatch
     [[Lit CHR ''/'', Named ''path'', Lit CHR ''/'', Lit CHR ''r'', Lit CHR ''o'',
       Lit CHR ''l'', Lit CHR ''e'', Lit CHR ''/'', Named ''name'']]
     ''extra/transform/role/my-role''
   = [''/transform/role/my-role'', ''transform'', ''my-role'']"
    by (simp add: dotRun_def eval_nat_numeral)
  then have "PathParameters ''/transform/role/{name}'' ''extra/transform/role/my-role''
     = Inr [''path'' \<mapsto> ''transform'', ''name'' \<mapsto> ''my-role'']"
    by (simp only: PathParameters_def pattern_role sum.case Compile_role)
       (simp add: SubexpNames_def)
  then show ?thesis by simp
qed

text \<open>
  Claim C3, amended: the match is not anchored. For every endpoint template of the
  documented grammar whose literals are plain characters and whose placeholder names are
  capture names: whenever \<open>PathParameters\<close> succeeds on a concrete path, it succeeds on
  every path that contains it, with any text before and after, so that extra leading or
  trailing segments do not prevent a successful extraction; and when the template begins
  with \<open>/\<close>, text without a \<open>/\<close> in front of a concrete path is passed over, and the
  result is the one for the path without it.
\<close>

theorem PathParameters_unanchored:
  "wellFormed endpoint \<Longrightarrow>
     (PathParameters endpoint vaultPath = Inr m \<longrightarrow>
        (\<exists>m'. PathParameters endpoint (pre @ vaultPath @ post) = Inr m'))
     \<and> (prefix ''/'' endpoint \<and> CHR ''/'' \<notin> set pre \<longrightarrow>
          PathParameters endpoint (pre @ vaultPath) = PathParameters endpoint vaultPath)"
proof (intro conjI impI)
  assume w: "wellFormed endpoint" and a: "PathParameters endpoint vaultPath = Inr m"
  from wellFormed_pattern [OF w] obtain pat re where
    p: "pattern endpoint = Inr pat" "Compile pat = Inr [re]" by blast
  with a have l: "PathParameters_loop (enumerate 0 (SubexpNames [re]))
              (FindStringSubmatch [re] vaultPath) Map.empty = Inr m"
    by (simp add: PathParameters_def)
  have "length (FindStringSubmatch [re] vaultPath)
          \<le> length (FindStringSubmatch [re] (pre @ vaultPath @ post))"
  proof (cases "FindStringSubmatch [re] vaultPath = []")
    case True
    then show ?thesis by simp
  next
    case False
    then have "FindStringSubmatch [re] (pre @ vaultPath @ post) \<noteq> []"
      by (intro Find_prepend Find_append)
    with False show ?thesis by (simp add: Find_length)
  qed
  from PathParameters_loop_longer [OF l this, of Map.empty] p
  show "\<exists>m'. PathParameters endpoint (pre @ vaultPath @ post) = Inr m'"
    by (simp add: PathParameters_def)
next
  assume w: "wellFormed endpoint" and a: "prefix ''/'' endpoint \<and> CHR ''/'' \<notin> set pre"
  from wellFormed_pattern_slash [OF w] a obtain pat re where
    p: "pattern endpoint = Inr pat" "Compile pat = Inr [Lit CHR ''/'' # re]" by blast
  from a have "FindStringSubmatch [Lit CHR ''/'' # re] (pre @ vaultPath)
      = FindStringSubmatch [Lit CHR ''/'' # re] vaultPath"
    by (intro Find_skip) simp
  then show "PathParameters endpoint (pre @ vaultPath) = PathParameters endpoint vaultPath"
    by (simp only: PathParameters_def p sum.case)
qed

text \<open>The example template and its path, behind a host and before a further segment.\<close>

theorem PathParameters_unanchored_witness:
  "wellFormed ''/transform/role/{name}'' \<and> prefix ''/'' ''/transform/role/{name}''
   \<and> CHR ''/'' \<notin> set ''vault:8200''
   \<and> PathParameters ''/transform/role/{name}'' ''/transform/role/my-role''
     = Inr [''path'' \<mapsto> ''transform'', ''name'' \<mapsto> ''my-role'']
   \<and> (\<exists>m'. PathParameters ''/transform/role/{name}''
          (''https://vault:8200/v1'' @ ''/transform/role/my-role'' @ ''/config'') = Inr m')
   \<and> PathParameters ''/transform/role/{name}'' (''vault:8200'' @ ''/transform/role/my-role'')
     = Inr [''path'' \<mapsto> ''transform'', ''name'' \<mapsto> ''my-role'']"
proof -
  have n: "CHR ''/'' \<notin> set ''vault:8200''" by simp
  have pr: "prefix ''/'' ''/transform/role/{name}''" by simp
  from PathParameters_unanchored [OF wellFormed_role, of "''/transform/role/my-role''" _
      "''https://vault:8200/v1''" "''/config''"] PathParameters_role
  have 1: "\<exists>m'. PathParameters ''/transform/role/{name}''
          (''https://vault:8200/v1'' @ ''/transform/role/my-role'' @ ''/config'') = Inr m'"
    by blast
  from PathParameters_unanchored [OF wellFormed_role, of "''/transform/role/my-role''" _
      "''vault:8200''"] pr n PathParameters_role
  have 2: "PathParameters ''/transform/role/{name}'' (''vault:8200'' @ ''/transform/role/my-role'')
     = Inr [''path'' \<mapsto> ''transform'', ''name'' \<mapsto> ''my-role'']"
    by metis
  from wellFormed_role pr n PathParameters_role 1 2 show ?thesis by (intro conjI)
qed

section \<open>Which fields the placeholder loop reads\<close>

lemma paired_pieces:
  "(pairedFrom False s \<longrightarrow> (\<exists>ps. list_all okPiece ps \<and> s = unparse ps))
   \<and> (pairedFrom True s \<longrightarrow> (\<exists>n ps. braceFree n \<and> list_all okPiece ps \<and> s = n @ ''}'' @ unparse ps))"
proof (induction s)
  case Nil
  have "list_all okPiece [] \<and> [] = unparse []" by simp
  then have "\<exists>ps. list_all okPiece ps \<and> [] = unparse ps" by blast
  then show ?case by simp
next
  case (Cons c s)
  show ?case
  proof (intro conjI impI)
    assume a: "pairedFrom False (c # s)"
    show "\<exists>ps. list_all okPiece ps \<and> c # s = unparse ps"
    proof (cases "c = CHR ''{''")
      case True
      with a Cons obtain n ps where "braceFree n" "list_all okPiece ps" "s = n @ ''}'' @ unparse ps"
        by auto
      with True have "list_all okPiece (Token n # ps) \<and> c # s = unparse (Token n # ps)" by simp
      then show ?thesis by blast
    next
      case False
      with a have nb: "c \<noteq> CHR ''}''" by (auto split: if_splits)
      with a False Cons obtain ps where "list_all okPiece ps" "s = unparse ps" by auto
      with False nb have "list_all okPiece (Text [c] # ps) \<and> c # s = unparse (Text [c] # ps)"
        by (simp add: braceFree_def)
      then show ?thesis by blast
    qed
  next
    assume a: "pairedFrom True (c # s)"
    then have no: "c \<noteq> CHR ''{''" by (auto split: if_splits)
    show "\<exists>n ps. braceFree n \<and> list_all okPiece ps \<and> c # s = n @ ''}'' @ unparse ps"
    proof (cases "c = CHR ''}''")
      case True
      with a Cons obtain ps where "list_all okPiece ps" "s = unparse ps" by auto
      with True have "braceFree [] \<and> list_all okPiece ps \<and> c # s = [] @ ''}'' @ unparse ps"
        by (simp add: braceFree_def)
      then show ?thesis by blast
    next
      case False
      with a no Cons obtain n ps where "braceFree n" "list_all okPiece ps"
          "s = n @ ''}'' @ unparse ps"
        by auto
      with False no have "braceFree (c # n) \<and> list_all okPiece ps \<and> c # s = (c # n) @ ''}'' @ unparse ps"
        by (simp add: braceFree_def)
      then show ?thesis by blast
    qed
  qed
qed

lemma ReplaceAll_unparse:
  assumes "braceFree f" "list_all okPiece ps"
  shows "ReplaceAll (unparse ps) (''{'' @ f @ ''}'') v = unparse (map (resolve f v) ps)"
  using assms(2)
proof (induction ps)
  case Nil
  then show ?case by (simp add: ReplaceAll.simps)
next
  case (Cons p ps)
  show ?case
  proof (cases p)
    case (Text t)
    with Cons.prems have "CHR ''{'' \<notin> set t" by (simp add: braceFree_def)
    from ReplaceAll_skip [OF this, of "unparse ps" "f @ ''}''" v] Cons Text show ?thesis by simp
  next
    case (Token n)
    with Cons.prems have n: "CHR ''{'' \<notin> set n" "CHR ''}'' \<notin> set n" by (simp_all add: braceFree_def)
    show ?thesis
    proof (cases "n = f")
      case True
      from ReplaceAll_hit [of "''{'' @ f @ ''}''" "unparse ps" v] Cons Token True
      show ?thesis by simp
    next
      case False
      then have "f \<noteq> n" by simp
      from ReplaceAll_other_token [OF this n, of "unparse ps" v] assms(1) Cons Token False
      show ?thesis by (simp add: braceFree_def)
    qed
  qed
qed

lemma resolve_ok: "braceFree v \<Longrightarrow> list_all okPiece ps \<Longrightarrow> list_all okPiece (map (resolve f v) ps)"
proof (induction ps)
  case Nil
  then show ?case by simp
next
  case (Cons p ps)
  then show ?case by (cases p) simp_all
qed

lemma resolve_tokens: "Token n \<in> set (map (resolve f v) ps) \<Longrightarrow> Token n \<in> set ps"
proof (induction ps)
  case Nil
  then show ?case by simp
next
  case (Cons p ps)
  then show ?case by (cases p) (auto split: if_splits)
qed

lemma resolve_absent: "Token f \<notin> set ps \<Longrightarrow> map (resolve f v) ps = ps"
proof (induction ps)
  case Nil
  then show ?case by simp
next
  case (Cons p ps)
  then show ?case by (cases p) auto
qed

lemma token_sublist: "Token n \<in> set ps \<Longrightarrow> sublist (''{'' @ n @ ''}'') (unparse ps)"
proof (induction ps)
  case Nil
  then show ?case by simp
next
  case (Cons p ps)
  show ?case
  proof (cases "p = Token n")
    case True
    have "unparse (p # ps) = [] @ (''{'' @ n @ ''}'') @ unparse ps" using True by simp
    then show ?thesis unfolding sublist_def by blast
  next
    case False
    with Cons obtain a b where ab: "unparse ps = a @ (''{'' @ n @ ''}'') @ b"
      by (auto simp: sublist_def)
    obtain x where "unparse (p # ps) = x @ unparse ps" by (cases p) auto
    with ab have "unparse (p # ps) = (x @ a) @ (''{'' @ n @ ''}'') @ b" by simp
    then show ?thesis unfolding sublist_def by blast
  qed
qed

lemma GetOk_value: "GetOk d k = Some x \<Longrightarrow> d k = Some x"
  by (auto simp: GetOk_def split: option.splits fieldValue.splits if_splits)

lemma ParsePath_loop_pieces:
  assumes v1: "\<forall>k x. d1 k = Some x \<longrightarrow> braceFreeValue x"
    and v2: "\<forall>k x. d2 k = Some x \<longrightarrow> braceFreeValue x"
  shows "\<forall>f \<in> set fs. braceFree f \<Longrightarrow> list_all okPiece ps \<Longrightarrow>
         \<forall>n. Token n \<in> set ps \<longrightarrow> GetOk d1 n = GetOk d2 n \<Longrightarrow>
         ParsePath_loop d1 fs (unparse ps) = ParsePath_loop d2 fs (unparse ps)"
proof (induction fs arbitrary: ps)
  case Nil
  then show ?case by simp
next
  case (Cons f fs)
  from Cons.prems(1) have bf: "braceFree f" and bfs: "\<forall>f \<in> set fs. braceFree f" by simp_all
  have step: "\<exists>v. x = StringValue v
      \<and> ReplaceAll (unparse ps) (''{'' @ f @ ''}'') v = unparse (map (resolve f v) ps)
      \<and> list_all okPiece (map (resolve f v) ps)"
    if vd: "\<forall>k x. d k = Some x \<longrightarrow> braceFreeValue x" and g: "GetOk d f = Some x" for d x
  proof -
    from GetOk_value [OF g] vd have "braceFreeValue x" by blast
    then obtain v where v: "x = StringValue v" "braceFree v" by (cases x) simp_all
    from ReplaceAll_unparse [OF bf Cons.prems(2), of v] resolve_ok [OF v(2) Cons.prems(2), of f] v(1)
    show ?thesis by blast
  qed
  show ?case
  proof (cases "Token f \<in> set ps")
    case True
    with Cons.prems(3) have eq: "GetOk d1 f = GetOk d2 f" by simp
    show ?thesis
    proof (cases "GetOk d1 f")
      case None
      with eq Cons.IH [OF bfs Cons.prems(2,3)] show ?thesis by simp
    next
      case (Some x)
      from step [OF v1 Some] obtain v where x: "x = StringValue v"
        and r: "ReplaceAll (unparse ps) (''{'' @ f @ ''}'') v = unparse (map (resolve f v) ps)"
        and ok: "list_all okPiece (map (resolve f v) ps)"
        by blast
      have "\<forall>n. Token n \<in> set (map (resolve f v) ps) \<longrightarrow> GetOk d1 n = GetOk d2 n"
        using resolve_tokens Cons.prems(3) by blast
      from Cons.IH [OF bfs ok this] r Some eq x show ?thesis by simp
    qed
  next
    case False
    have same: "ParsePath_loop d (f # fs) (unparse ps) = ParsePath_loop d fs (unparse ps)"
      if vd: "\<forall>k x. d k = Some x \<longrightarrow> braceFreeValue x" for d
    proof (cases "GetOk d f")
      case None
      then show ?thesis by simp
    next
      case (Some x)
      from step [OF vd Some] obtain v where "x = StringValue v"
        "ReplaceAll (unparse ps) (''{'' @ f @ ''}'') v = unparse (map (resolve f v) ps)"
        by blast
      with resolve_absent [OF False, of v] Some show ?thesis by simp
    qed
    from same [OF v1] same [OF v2] Cons.IH [OF bfs Cons.prems(2,3)] show ?thesis by simp
  qed
qed


text \<open>
  Claim C9, as stated: for every endpoint template and mount path, two field lookups with
  brace-free string values that agree on every name occurring as a \<open>{name}\<close> token of the
  rebuilt path give the same result. The loop also looks up the text between the braces
  that is no placeholder, and its replacements follow one another: once \<open>{name}\<close>
  inside \<open>{{name}}id\<close> is replaced by \<open>id\<close>, the path holds a new token \<open>{id}\<close>, and
  \<open>id\<close>, the text after the braces, is a field the loop reads next. The two lookups
  below agree on \<open>name\<close>, the only placeholder of the rebuilt path, and differ on
  \<open>id\<close>.
\<close>

theorem ParsePath_nested_braces_interfere:
  "recomprise ''transform'' ''/transform/role/{{name}}id'' = Inr ''/transform/role/{{name}}id''
   \<and> \<not> sublist ''{id}'' ''/transform/role/{{name}}id''
   \<and> GetOk [''name'' \<mapsto> StringValue ''id''] ''name'' = GetOk [''name'' \<mapsto> StringValue ''id'', ''id'' \<mapsto> StringValue ''7''] ''name''
   \<and> ParsePath ''transform'' ''/transform/role/{{name}}id'' [''name'' \<mapsto> StringValue ''id'']
        = Inr ''/transform/role/{id}id''
   \<and> ParsePath ''transform'' ''/transform/role/{{name}}id'' [''name'' \<mapsto> StringValue ''id'', ''id'' \<mapsto> StringValue ''7'']
        = Inr ''/transform/role/7id''"
proof (intro conjI)
  show r: "recomprise ''transform'' ''/transform/role/{{name}}id'' = Inr ''/transform/role/{{name}}id''"
    by (simp add: recomprise_def Split_def)
  show "\<not> sublist ''{id}'' ''/transform/role/{{name}}id''"
    by (simp add: sublist_Cons_right)
  show "GetOk [''name'' \<mapsto> StringValue ''id''] ''name'' = GetOk [''name'' \<mapsto> StringValue ''id'', ''id'' \<mapsto> StringValue ''7''] ''name''"
    by (simp add: GetOk_def)
  have f: "FieldsFunc ''/transform/role/{{name}}id'' isBrace = [''/transform/role/'', ''name'', ''id'']"
    by (simp add: FieldsFunc_def isBrace_def)
  show "ParsePath ''transform'' ''/transform/role/{{name}}id'' [''name'' \<mapsto> StringValue ''id'']
        = Inr ''/transform/role/{id}id''"
    unfolding ParsePath_def r sum.case f by (simp add: GetOk_def ReplaceAll.simps)
  show "ParsePath ''transform'' ''/transform/role/{{name}}id'' [''name'' \<mapsto> StringValue ''id'', ''id'' \<mapsto> StringValue ''7'']
        = Inr ''/transform/role/7id''"
    unfolding ParsePath_def r sum.case f by (simp add: GetOk_def ReplaceAll.simps)
qed

text \<open>
  Claim C9, amended: for every endpoint template and mount path whose rebuilt path has
  its braces paired and not nested, and every two field lookups with brace-free string
  values that agree on every name occurring as a \<open>{name}\<close> token of the rebuilt path,
  \<open>ParsePath\<close> returns the same result: the fields named after the text between the
  placeholders do not affect it.
\<close>

theorem ParsePath_noninterference:
  "recomprise m endpoint = Inr recomprised \<Longrightarrow> pairedBraces recomprised \<Longrightarrow>
   \<forall>k x. d1 k = Some x \<longrightarrow> braceFreeValue x \<Longrightarrow> \<forall>k x. d2 k = Some x \<longrightarrow> braceFreeValue x \<Longrightarrow>
   \<forall>n. braceFree n \<and> sublist (''{'' @ n @ ''}'') recomprised \<longrightarrow> GetOk d1 n = GetOk d2 n \<Longrightarrow>
   ParsePath m endpoint d1 = ParsePath m endpoint d2"
proof -
  assume r: "recomprise m endpoint = Inr recomprised" and p: "pairedBraces recomprised"
    and v1: "\<forall>k x. d1 k = Some x \<longrightarrow> braceFreeValue x" and v2: "\<forall>k x. d2 k = Some x \<longrightarrow> braceFreeValue x"
    and ag: "\<forall>n. braceFree n \<and> sublist (''{'' @ n @ ''}'') recomprised \<longrightarrow> GetOk d1 n = GetOk d2 n"
  from p paired_pieces [of recomprised] obtain ps where
    ps: "list_all okPiece ps" "recomprised = unparse ps"
    by (auto simp: pairedBraces_def)
  have fs: "\<forall>f \<in> set (FieldsFunc recomprised isBrace). braceFree f"
    using FieldsFunc_fields by (auto simp: braceFree_def)
  have "\<forall>n. Token n \<in> set ps \<longrightarrow> GetOk d1 n = GetOk d2 n"
  proof (intro allI impI)
    fix n assume t: "Token n \<in> set ps"
    with ps(1) have "okPiece (Token n)" by (auto simp: list_all_iff)
    then have "braceFree n" by simp
    moreover from token_sublist [OF t] ps(2) have "sublist (''{'' @ n @ ''}'') recomprised" by simp
    ultimately show "GetOk d1 n = GetOk d2 n" using ag by blast
  qed
  from ParsePath_loop_pieces [OF v1 v2 fs ps(1) this] r ps(2)
  show ?thesis by (simp add: ParsePath_def)
qed

text \<open>
  The second lookup below sets a field named after the literal text of the path; the
  result is the same.
\<close>

theorem ParsePath_noninterference_witness:
  "recomprise ''transform'' ''/transform/role/{name}'' = Inr ''/transform/role/{name}''
   \<and> pairedBraces ''/transform/role/{name}''
   \<and> GetOk [''name'' \<mapsto> StringValue ''my-role'', ''/transform/role/'' \<mapsto> StringValue ''other''] ''/transform/role/''
        = Some (StringValue ''other'')
   \<and> GetOk [''name'' \<mapsto> StringValue ''my-role''] ''/transform/role/'' = None
   \<and> ParsePath ''transform'' ''/transform/role/{name}'' [''name'' \<mapsto> StringValue ''my-role'']
       = ParsePath ''transform'' ''/transform/role/{name}''
           [''name'' \<mapsto> StringValue ''my-role'', ''/transform/role/'' \<mapsto> StringValue ''other'']"
proof -
  have r: "recomprise ''transform'' ''/transform/role/{name}'' = Inr ''/transform/role/{name}''"
    by (simp add: recomprise_def Split_def)
  have p: "pairedBraces ''/transform/role/{name}''"
    by (simp add: pairedBraces_def)
  have v1: "\<forall>k x. [''name'' \<mapsto> StringValue ''my-role''] k = Some x \<longrightarrow> braceFreeValue x"
    by (auto simp: braceFree_def split: if_splits)
  have v2: "\<forall>k x. [''name'' \<mapsto> StringValue ''my-role'',
        ''/transform/role/'' \<mapsto> StringValue ''other''] k = Some x \<longrightarrow> braceFreeValue x"
    by (auto simp: braceFree_def split: if_splits)
  have ns: "\<not> sublist ''{/transform/role/}'' ''/transform/role/{name}''"
    by (simp add: sublist_Cons_right)
  have ag: "\<forall>n. braceFree n \<and> sublist (''{'' @ n @ ''}'') ''/transform/role/{name}'' \<longrightarrow>
      GetOk [''name'' \<mapsto> StringValue ''my-role''] n
        = GetOk [''name'' \<mapsto> StringValue ''my-role'', ''/transform/role/'' \<mapsto> StringValue ''other''] n"
  proof (intro allI impI)
    fix n assume a: "braceFree n \<and> sublist (''{'' @ n @ ''}'') ''/transform/role/{name}''"
    with ns have "n \<noteq> ''/transform/role/''" by auto
    then show "GetOk [''name'' \<mapsto> StringValue ''my-role''] n
        = GetOk [''name'' \<mapsto> StringValue ''my-role'', ''/transform/role/'' \<mapsto> StringValue ''other''] n"
      by (simp add: GetOk_def)
  qed
  have g: "GetOk [''name'' \<mapsto> StringValue ''my-role'', ''/transform/role/'' \<mapsto> StringValue ''other''] ''/transform/role/''
        = Some (StringValue ''other'')" "GetOk [''name'' \<mapsto> StringValue ''my-role''] ''/transform/role/'' = None"
    by (simp_all add: GetOk_def)
  from ParsePath_noninterference [OF r p v1 v2 ag] r p g show ?thesis by simp
qed

section \<open>Rendering, then extracting\<close>

subsection \<open>More on ReplaceAll\<close>

lemma ReplaceAll_over_slash:
  assumes "old \<noteq> []" "CHR ''/'' \<notin> set old"
  shows "ReplaceAll (x @ CHR ''/'' # y) old new
           = ReplaceAll x old new @ CHR ''/'' # ReplaceAll y old new"
proof (induction "length x" arbitrary: x rule: less_induct)
  case less
  show ?case
  proof (cases x)
    case Nil
    have "\<not> prefix old (CHR ''/'' # y)"
      using assms by (cases old) auto
    then show ?thesis
      using Nil assms(1) by (simp add: ReplaceAll_miss ReplaceAll.simps(1))
  next
    case (Cons c x2)
    show ?thesis
    proof (cases "prefix old (x @ CHR ''/'' # y)")
      case True
      have "prefix old x"
      proof (rule ccontr)
        assume np: "\<not> prefix old x"
        with True obtain us where us: "old = x @ us" "prefix us (CHR ''/'' # y)"
          by (auto simp: prefix_append)
        with np have "us \<noteq> []" by auto
        with us(2) have "CHR ''/'' \<in> set us" by (cases us) auto
        with us(1) assms(2) show False by simp
      qed
      then obtain x4 where x4: "x = old @ x4" by (auto simp: prefix_def)
      with assms(1) have "length x4 < length x" by simp
      from less [OF this] have "ReplaceAll (x4 @ CHR ''/'' # y) old new
           = ReplaceAll x4 old new @ CHR ''/'' # ReplaceAll y old new" .
      moreover have "ReplaceAll (x @ CHR ''/'' # y) old new
           = new @ ReplaceAll (x4 @ CHR ''/'' # y) old new"
        using ReplaceAll_hit [OF assms(1), of "x4 @ CHR ''/'' # y" new] x4 by simp
      moreover have "ReplaceAll x old new = new @ ReplaceAll x4 old new"
        using ReplaceAll_hit [OF assms(1), of x4 new] x4 by simp
      ultimately show ?thesis by simp
    next
      case False
      then have np: "\<not> prefix old x"
        by (auto simp: prefix_append)
      have "length x2 < length x" using Cons by simp
      from less [OF this] have "ReplaceAll (x2 @ CHR ''/'' # y) old new
           = ReplaceAll x2 old new @ CHR ''/'' # ReplaceAll y old new" .
      moreover have "ReplaceAll (x @ CHR ''/'' # y) old new
           = c # ReplaceAll (x2 @ CHR ''/'' # y) old new"
        using ReplaceAll_miss [OF assms(1), of c "x2 @ CHR ''/'' # y" new] False Cons by simp
      moreover have "ReplaceAll x old new = c # ReplaceAll x2 old new"
        using ReplaceAll_miss [OF assms(1), of c x2 new] np Cons by simp
      ultimately show ?thesis by simp
    qed
  qed
qed

lemma ReplaceAll_set: "set (ReplaceAll s old new) \<subseteq> set s \<union> set new"
proof (induction s old new rule: ReplaceAll.induct)
  case (1 old new)
  then show ?case by (auto simp: ReplaceAll.simps)
next
  case (2 c s old new)
  show ?case
  proof (cases "old = []")
    case True
    with 2 show ?thesis by (auto simp: ReplaceAll.simps)
  next
    case False
    show ?thesis
    proof (cases "prefix old (c # s)")
      case True
      from "2.IH"(2) [OF False True]
      have "set (ReplaceAll (drop (length old) (c # s)) old new)
              \<subseteq> set (drop (length old) (c # s)) \<union> set new" .
      moreover have "set (drop (length old) (c # s)) \<subseteq> set (c # s)" by (rule set_drop_subset)
      ultimately show ?thesis
        using False True by (auto simp: ReplaceAll.simps(2) [of c s])
    next
      case np: False
      from "2.IH"(3) [OF False np] False np show ?thesis
        by (auto simp: ReplaceAll.simps(2) [of c s])
    qed
  qed
qed

lemma ReplaceAll_nonempty:
  "s \<noteq> [] \<Longrightarrow> new \<noteq> [] \<Longrightarrow> ReplaceAll s old new \<noteq> []"
  by (cases s) (auto simp: ReplaceAll.simps)

subsection \<open>The field of a placeholder\<close>

lemma fieldsFrom_run:
  "\<forall>c \<in> set n. \<not> f c \<Longrightarrow> fieldsFrom f cur (n @ s) = fieldsFrom f (cur @ n) s"
  by (induction n arbitrary: cur) simp_all

lemma fieldsFrom_placeholder:
  assumes "n \<noteq> []" "\<forall>c \<in> set n. \<not> isBrace c"
  shows "n \<in> set (fieldsFrom isBrace cur (a @ ''{'' @ n @ ''}'' @ b))"
proof (induction a arbitrary: cur)
  case Nil
  have br: "isBrace CHR ''{''" "isBrace CHR ''}''" by (simp_all add: isBrace_def)
  have "fieldsFrom isBrace [] (n @ CHR ''}'' # b) = n # fieldsFrom isBrace [] b"
    using assms fieldsFrom_run [of n isBrace "[]" "CHR ''}'' # b"] br by simp
  then show ?case using br by simp
next
  case (Cons c a)
  then show ?case by simp
qed

subsection \<open>The rendered path of a template with one placeholder\<close>

lemma slash_segments:
  "concat (map ((@) ''/'') pre) @ ''/'' = ''/'' @ concat (map (\<lambda>seg. seg @ ''/'') pre)"
  by (induction pre) simp_all

lemma render_first:
  assumes "CHR ''{'' \<notin> set L" "CHR ''{'' \<notin> set B" "CHR ''/'' \<notin> set name"
  shows "ReplaceAll (''/'' @ X @ ''/'' @ L @ ''{'' @ name @ ''}'' @ B) (''{'' @ name @ ''}'') v
           = ''/'' @ ReplaceAll X (''{'' @ name @ ''}'') v @ ''/'' @ L @ v @ B"
proof -
  let ?old = "''{'' @ name @ ''}''"
  have o: "?old \<noteq> []" "CHR ''/'' \<notin> set ?old" using assms(3) by simp_all
  have "ReplaceAll (L @ ?old @ B) ?old v = L @ ReplaceAll (?old @ B) ?old v"
    using ReplaceAll_skip [OF assms(1), of "?old @ B" "name @ ''}''" v] by simp
  also have "ReplaceAll (?old @ B) ?old v = v @ ReplaceAll B ?old v"
    by (rule ReplaceAll_hit) simp
  also have "ReplaceAll B ?old v = B"
    using ReplaceAll_absent [OF assms(2), of "name @ ''}''" v] by simp
  finally have z: "ReplaceAll (L @ ?old @ B) ?old v = L @ v @ B" .
  have "ReplaceAll ([] @ CHR ''/'' # (X @ CHR ''/'' # (L @ ?old @ B))) ?old v
          = ReplaceAll [] ?old v @ CHR ''/'' # ReplaceAll (X @ CHR ''/'' # (L @ ?old @ B)) ?old v"
    by (rule ReplaceAll_over_slash [OF o])
  also have "ReplaceAll (X @ CHR ''/'' # (L @ ?old @ B)) ?old v
          = ReplaceAll X ?old v @ CHR ''/'' # ReplaceAll (L @ ?old @ B) ?old v"
    by (rule ReplaceAll_over_slash [OF o])
  finally show ?thesis using z by (simp add: ReplaceAll.simps(1))
qed

lemma render_again:
  assumes "CHR ''{'' \<notin> set L" "CHR ''{'' \<notin> set B" "CHR ''/'' \<notin> set name" "CHR ''{'' \<notin> set v"
  shows "ReplaceAll (''/'' @ X @ ''/'' @ L @ v @ B) (''{'' @ name @ ''}'') v
           = ''/'' @ ReplaceAll X (''{'' @ name @ ''}'') v @ ''/'' @ L @ v @ B"
proof -
  let ?old = "''{'' @ name @ ''}''"
  have o: "?old \<noteq> []" "CHR ''/'' \<notin> set ?old" using assms(3) by simp_all
  have "CHR ''{'' \<notin> set (L @ v @ B)" using assms by simp
  from ReplaceAll_absent [OF this, of "name @ ''}''" v]
  have z: "ReplaceAll (L @ v @ B) ?old v = L @ v @ B" by simp
  have "ReplaceAll ([] @ CHR ''/'' # (X @ CHR ''/'' # (L @ v @ B))) ?old v
          = ReplaceAll [] ?old v @ CHR ''/'' # ReplaceAll (X @ CHR ''/'' # (L @ v @ B)) ?old v"
    by (rule ReplaceAll_over_slash [OF o])
  also have "ReplaceAll (X @ CHR ''/'' # (L @ v @ B)) ?old v
          = ReplaceAll X ?old v @ CHR ''/'' # ReplaceAll (L @ v @ B) ?old v"
    by (rule ReplaceAll_over_slash [OF o])
  finally show ?thesis using z by (simp add: ReplaceAll.simps(1))
qed

lemma replaced_mount:
  assumes "X \<noteq> []" "CHR 0x0A \<notin> set X" "v \<noteq> []" "CHR 0x0A \<notin> set v"
  shows "ReplaceAll X old v \<noteq> [] \<and> CHR 0x0A \<notin> set (ReplaceAll X old v)"
  using ReplaceAll_nonempty [OF assms(1,3), of old] ReplaceAll_set [of X old v] assms(2,4)
  by auto

lemma GetOk_singleton:
  "v \<noteq> [] \<Longrightarrow> GetOk [name \<mapsto> StringValue v] f
     = (if f = name then Some (StringValue v) else None)"
  by (simp add: GetOk_def)

lemma loop_rendered:
  assumes "CHR ''{'' \<notin> set L" "CHR ''{'' \<notin> set B" "CHR ''/'' \<notin> set name"
    "v \<noteq> []" "CHR ''{'' \<notin> set v" "CHR 0x0A \<notin> set v"
    and d: "\<And>f. GetOk d f = (if f = name then Some (StringValue v) else None)"
  shows "X \<noteq> [] \<Longrightarrow> CHR 0x0A \<notin> set X \<Longrightarrow>
     \<exists>X'. X' \<noteq> [] \<and> CHR 0x0A \<notin> set X' \<and>
       ParsePath_loop d fs (''/'' @ X @ ''/'' @ L @ v @ B) = Inr (''/'' @ X' @ ''/'' @ L @ v @ B)"
proof (induction fs arbitrary: X)
  case Nil
  then show ?case by auto
next
  case (Cons f fs)
  show ?case
  proof (cases "f = name")
    case True
    let ?X = "ReplaceAll X (''{'' @ name @ ''}'') v"
    from replaced_mount [OF Cons.prems(1,2) assms(4,6)]
    have "?X \<noteq> []" "CHR 0x0A \<notin> set ?X" by simp_all
    from Cons.IH [OF this] obtain X' where "X' \<noteq> [] \<and> CHR 0x0A \<notin> set X' \<and>
       ParsePath_loop d fs (''/'' @ ?X @ ''/'' @ L @ v @ B) = Inr (''/'' @ X' @ ''/'' @ L @ v @ B)"
      by blast
    moreover have "ParsePath_loop d (f # fs) (''/'' @ X @ ''/'' @ L @ v @ B)
      = ParsePath_loop d fs (''/'' @ ?X @ ''/'' @ L @ v @ B)"
      using True render_again [OF assms(1,2,3,5), of X] d [of name]
      by simp
    ultimately show ?thesis by metis
  next
    case False
    then have "ParsePath_loop d (f # fs) (''/'' @ X @ ''/'' @ L @ v @ B)
      = ParsePath_loop d fs (''/'' @ X @ ''/'' @ L @ v @ B)"
      using d [of f] by simp
    with Cons.IH [OF Cons.prems] show ?thesis by simp
  qed
qed

lemma loop_renders:
  assumes "CHR ''{'' \<notin> set L" "CHR ''{'' \<notin> set B" "CHR ''/'' \<notin> set name"
    "v \<noteq> []" "CHR ''{'' \<notin> set v" "CHR 0x0A \<notin> set v"
    and d: "\<And>f. GetOk d f = (if f = name then Some (StringValue v) else None)"
  shows "name \<in> set fs \<Longrightarrow> X \<noteq> [] \<Longrightarrow> CHR 0x0A \<notin> set X \<Longrightarrow>
     \<exists>X'. X' \<noteq> [] \<and> CHR 0x0A \<notin> set X' \<and>
       ParsePath_loop d fs (''/'' @ X @ ''/'' @ L @ ''{'' @ name @ ''}'' @ B)
         = Inr (''/'' @ X' @ ''/'' @ L @ v @ B)"
proof (induction fs)
  case Nil
  then show ?case by simp
next
  case (Cons f fs)
  show ?case
  proof (cases "f = name")
    case True
    let ?X = "ReplaceAll X (''{'' @ name @ ''}'') v"
    from replaced_mount [OF Cons.prems(2,3) assms(4,6)]
    have "?X \<noteq> []" "CHR 0x0A \<notin> set ?X" by simp_all
    from loop_rendered [OF assms(1-6) d this, of fs] obtain X' where "X' \<noteq> [] \<and> CHR 0x0A \<notin> set X' \<and>
       ParsePath_loop d fs (''/'' @ ?X @ ''/'' @ L @ v @ B) = Inr (''/'' @ X' @ ''/'' @ L @ v @ B)"
      by blast
    moreover have "ParsePath_loop d (f # fs) (''/'' @ X @ ''/'' @ L @ ''{'' @ name @ ''}'' @ B)
      = ParsePath_loop d fs (''/'' @ ?X @ ''/'' @ L @ v @ B)"
      using True render_first [OF assms(1,2,3), of X v] d [of name]
      by simp
    ultimately show ?thesis by metis
  next
    case False
    then have "ParsePath_loop d (f # fs) (''/'' @ X @ ''/'' @ L @ ''{'' @ name @ ''}'' @ B)
      = ParsePath_loop d fs (''/'' @ X @ ''/'' @ L @ ''{'' @ name @ ''}'' @ B)"
      using d [of f] by simp
    moreover from False Cons.prems(1) have "name \<in> set fs" by simp
    ultimately show ?thesis using Cons.IH Cons.prems(2,3) by simp
  qed
qed

subsection \<open>Matching the rendered path\<close>

lemma count_drop_le: "count_list (drop k s) c \<le> count_list s c"
proof -
  have "count_list (take k s @ drop k s) c = count_list (take k s) c + count_list (drop k s) c"
    by (rule count_list_append)
  then show ?thesis by simp
qed

lemma count_map_Lit: "count_list (map Lit a) (Lit c) = count_list a c"
  by (induction a) simp_all

lemma matchHere_slashes:
  "matchHere re s = Some x \<Longrightarrow> count_list re (Lit CHR ''/'') \<le> count_list s CHR ''/''"
proof (induction re arbitrary: s x)
  case Nil
  then show ?case by simp
next
  case (Cons it re)
  show ?case
  proof (cases it)
    case (Lit c)
    with Cons.prems obtain xs where s: "s = c # xs" "matchHere re xs = Some x"
      by (cases s) (auto split: if_splits)
    from Cons.IH [OF s(2)] s(1) Lit show ?thesis by simp
  next
    case (Named n)
    obtain caps r where x: "x = (caps, r)" by (cases x)
    with Cons.prems Named have "backtrack (matchHere re) s (dotRun s) = Some (caps, r)" by simp
    from backtrack_Some [OF this] obtain k c' where "matchHere re (drop k s) = Some (c', r)"
      by blast
    from Cons.IH [OF this] count_drop_le [of k s "CHR ''/''"] Named show ?thesis by simp
  qed
qed

lemma match_rendered:
  assumes "X \<noteq> []" "CHR 0x0A \<notin> set X" "v \<noteq> []" "CHR ''/'' \<notin> set v" "CHR 0x0A \<notin> set v"
  shows "matchHere (Lit CHR ''/'' # Named p # map Lit (CHR ''/'' # L) @ Named name # map Lit B)
           (CHR ''/'' # X @ CHR ''/'' # L @ v @ B) = Some ([X, v], [])"
proof -
  let ?rest = "map Lit (CHR ''/'' # L) @ Named name # map Lit B"
  let ?S1 = "CHR ''/'' # L @ v @ B"
  have inner: "backtrack (matchHere (map Lit B)) (v @ B) (dotRun (v @ B)) = Some ([v], [])"
  proof -
    have "matchHere (map Lit B @ []) (B @ []) = matchHere [] []" by (rule matchHere_lits)
    then have 1: "matchHere (map Lit B) (drop (length v) (v @ B)) = Some ([], [])" by simp
    have 2: "\<forall>k. length v < k \<and> k \<le> dotRun (v @ B) \<longrightarrow> matchHere (map Lit B) (drop k (v @ B)) = None"
    proof (intro allI impI)
      fix k assume k: "length v < k \<and> k \<le> dotRun (v @ B)"
      show "matchHere (map Lit B) (drop k (v @ B)) = None"
      proof (rule ccontr)
        assume "matchHere (map Lit B) (drop k (v @ B)) \<noteq> None"
        then obtain y where "matchHere (map Lit B) (drop k (v @ B)) = Some y" by auto
        from matchHere_lits_only [OF this] have "length B \<le> length (drop k (v @ B))"
          by (rule prefix_length_le)
        then have "length B \<le> length v + length B - k" by simp
        moreover from dotRun_le [of "v @ B"] have "dotRun (v @ B) \<le> length v + length B" by simp
        ultimately show False using k by arith
      qed
    qed
    have "1 \<le> length v" using assms(3) by (cases v) simp_all
    moreover have "length v \<le> dotRun (v @ B)" using assms(5) by (rule dotRun_all)
    ultimately have "backtrack (matchHere (map Lit B)) (v @ B) (dotRun (v @ B))
        = Some (take (length v) (v @ B) # [], [])"
      using 1 2 by (intro backtrack_first) simp_all
    then show ?thesis by simp
  qed
  have at_mount: "matchHere ?rest ?S1 = Some ([v], [])"
  proof -
    have "matchHere (map Lit (CHR ''/'' # L) @ Named name # map Lit B) ((CHR ''/'' # L) @ v @ B)
            = matchHere (Named name # map Lit B) (v @ B)"
      by (rule matchHere_lits)
    with inner show ?thesis by simp
  qed
  have later: "\<forall>k. length X < k \<and> k \<le> dotRun (X @ ?S1) \<longrightarrow> matchHere ?rest (drop k (X @ ?S1)) = None"
  proof (intro allI impI)
    fix k assume k: "length X < k \<and> k \<le> dotRun (X @ ?S1)"
    define j where "j = k - Suc (length X)"
    with k have j: "k = length X + Suc j" by simp
    then have d: "drop k (X @ ?S1) = drop j (L @ v @ B)" by simp
    show "matchHere ?rest (drop k (X @ ?S1)) = None"
    proof (rule ccontr)
      assume "matchHere ?rest (drop k (X @ ?S1)) \<noteq> None"
      then obtain y where "matchHere ?rest (drop j (L @ v @ B)) = Some y" using d by auto
      from matchHere_slashes [OF this]
      have "count_list ?rest (Lit CHR ''/'') \<le> count_list (drop j (L @ v @ B)) CHR ''/''" .
      also have "\<dots> \<le> count_list (L @ v @ B) CHR ''/''" by (rule count_drop_le)
      also have "\<dots> = count_list L CHR ''/'' + count_list B CHR ''/''"
        using assms(4) by (simp add: count_list_0_iff)
      finally show False by (simp add: count_map_Lit)
    qed
  qed
  have "1 \<le> length X" using assms(1) by (cases X) simp_all
  moreover have "length X \<le> dotRun (X @ ?S1)" using assms(2) by (rule dotRun_all)
  moreover have "matchHere ?rest (drop (length X) (X @ ?S1)) = Some ([v], [])"
    using at_mount by simp
  ultimately have "backtrack (matchHere ?rest) (X @ ?S1) (dotRun (X @ ?S1))
      = Some (take (length X) (X @ ?S1) # [v], [])"
    using later by (intro backtrack_first) simp_all
  then show ?thesis by simp
qed

lemma extract_rendered:
  assumes "X \<noteq> []" "CHR 0x0A \<notin> set X" "v \<noteq> []" "CHR ''/'' \<notin> set v" "CHR 0x0A \<notin> set v"
    and "name \<noteq> []"
  shows "\<exists>m. PathParameters_loop
           (enumerate 0 (SubexpNames
              [Lit CHR ''/'' # Named ''path'' # map Lit (CHR ''/'' # L) @ Named name # map Lit B]))
           (FindStringSubmatch
              [Lit CHR ''/'' # Named ''path'' # map Lit (CHR ''/'' # L) @ Named name # map Lit B]
              (CHR ''/'' # X @ CHR ''/'' # L @ v @ B))
           Map.empty = Inr m \<and> m name = Some v"
proof -
  let ?re = "Lit CHR ''/'' # Named ''path'' # map Lit (CHR ''/'' # L) @ Named name # map Lit B"
  let ?s = "CHR ''/'' # X @ CHR ''/'' # L @ v @ B"
  have g: "groupNames (map Lit a @ r) = groupNames r" for a r
    by (induction a) simp_all
  have "groupNames (map Lit B) = []" using g [of B "[]"] by simp
  then have names: "SubexpNames [?re] = [[], ''path'', name]"
    using g [of "CHR ''/'' # L" "Named name # map Lit B"] by (simp add: SubexpNames_def)
  from match_rendered [OF assms(1-5), of "''path''" L name B]
  have "FindStringSubmatch [?re] ?s = [?s, X, v]"
    by (simp only: FindStringSubmatch.simps matchAlts_single option.case prod.case) simp
  then have "PathParameters_loop (enumerate 0 (SubexpNames [?re])) (FindStringSubmatch [?re] ?s) Map.empty
      = Inr [''path'' \<mapsto> X, name \<mapsto> v]"
    unfolding names using assms(6) by simp
  moreover have "[''path'' \<mapsto> X, name \<mapsto> v] name = Some v" by simp
  ultimately show ?thesis by blast
qed

subsection \<open>The template with one placeholder\<close>

lemma literal_text:
  assumes "\<forall>seg \<in> set segs. isLiteral seg"
  shows "\<forall>c \<in> set (concat (map (\<lambda>seg. seg @ ''/'') segs)). isPlain c"
    and "\<forall>c \<in> set (concat (map ((@) ''/'') segs)). isPlain c"
  using assms by (auto simp: isLiteral_def list_all_iff isPlain_def isSpecial_def)

lemma not_meta_brace: "isPlain c \<Longrightarrow> c \<noteq> CHR ''{''"
  by (auto simp: isPlain_def isSpecial_def)

lemma valid_path: "isValidCaptureName ''path''"
  by (simp add: isValidCaptureName_def isalnum_def)

lemma single_placeholder:
  assumes valid: "isValidCaptureName name"
    and lit: "\<forall>seg \<in> set (pre @ post). isLiteral seg \<and> CHR ''/'' \<notin> set seg"
    and ms: "CHR ''/'' \<notin> set mountSeg"
    and T: "T = Join ([] # mountSeg # pre @ [''{'' @ name @ ''}''] @ post) ''/''"
    and L: "L = concat (map (\<lambda>seg. seg @ ''/'') pre)"
    and B: "B = concat (map ((@) ''/'') post)"
  shows "recomprise m T = Inr (''/'' @ m @ ''/'' @ L @ ''{'' @ name @ ''}'' @ B)"
    and "\<exists>pat. pattern T = Inr pat \<and>
           Compile pat = Inr [Lit CHR ''/'' # Named ''path'' # map Lit (CHR ''/'' # L)
                                @ Named name # map Lit B]"
proof -
  note v = valid_name_chars [OF valid]
  let ?segs = "[] # mountSeg # pre @ [''{'' @ name @ ''}''] @ post"
  have "\<forall>seg \<in> set ?segs. CHR ''/'' \<notin> set seg"
    using lit ms v(5) by auto
  then have split: "Split T CHR ''/'' = ?segs"
    unfolding T by (intro Split_Join) simp_all
  then have "\<not> length (Split T CHR ''/'') \<le> Suc 0" by simp
  then have sl: "CHR ''/'' \<in> set T" by (simp add: Split_short_iff)
  have sep: "concat (map ((@) ''/'') pre) @ ''/'' = ''/'' @ L"
    unfolding L by (rule slash_segments)
  have "concat (map ((@) ''/'') (pre @ [''{'' @ name @ ''}''] @ post))
          = (concat (map ((@) ''/'') pre) @ ''/'') @ ''{'' @ name @ ''}'' @ B"
    unfolding B by simp
  then have tail: "concat (map ((@) ''/'') (pre @ [''{'' @ name @ ''}''] @ post))
          = ''/'' @ L @ ''{'' @ name @ ''}'' @ B"
    unfolding sep by simp
  show "recomprise m T = Inr (''/'' @ m @ ''/'' @ L @ ''{'' @ name @ ''}'' @ B)"
    using recomprise_shape [OF sl, of m] split tail by simp
  have lits: "map toGroup pre = pre" "map toGroup post = post"
    using lit by (auto intro!: map_idI toGroup_literal)
  have "toGroup [] = []" by (rule toGroup_literal) (simp add: isLiteral_def)
  moreover have "toGroup ''{path}'' = ''(?P<path>.+)''"
    using toGroup_placeholder [OF valid_path] by simp
  ultimately have "map toGroup (?segs[1 := ''{path}''])
      = [] # ''(?P<path>.+)'' # pre @ [''(?P<'' @ name @ ''>.+)''] @ post"
    using lits toGroup_placeholder [OF valid] by simp
  then have "pattern T = Inr (Join ([] # ''(?P<path>.+)'' # pre @ [''(?P<'' @ name @ ''>.+)''] @ post) ''/'')"
    using pattern_ok [OF sl] split by simp
  also have "Join ([] # ''(?P<path>.+)'' # pre @ [''(?P<'' @ name @ ''>.+)''] @ post) ''/''
      = ''/'' @ (''(?P<'' @ ''path'' @ ''>.+)'') @ (concat (map ((@) ''/'') pre) @ ''/'')
          @ (''(?P<'' @ name @ ''>.+)'') @ B"
    unfolding B by (simp add: Join_Cons)
  finally have pat: "pattern T = Inr (''/'' @ (''(?P<'' @ ''path'' @ ''>.+)'') @ ((CHR ''/'' # L)
          @ ((''(?P<'' @ name @ ''>.+)'') @ (B @ []))))"
    unfolding sep by simp
  have mL: "\<forall>c \<in> set (CHR ''/'' # L). isPlain c"
    using literal_text(1) [of pre] lit unfolding L by (simp add: isPlain_def isSpecial_def)
  have mB: "\<forall>c \<in> set B. isPlain c"
    using literal_text(2) [of post] lit unfolding B by simp
  have c0: "Compile [] = Inr [[]]" by (simp add: Compile.simps)
  have c1: "Compile (B @ []) = Inr [map Lit B]"
    using Compile_lits [OF mB, of "[]"] c0 by simp
  have c2: "Compile ((''(?P<'' @ name @ ''>.+)'') @ (B @ [])) = Inr [Named name # map Lit B]"
    using Compile_group [OF valid, of "B @ []"] c1 by simp
  have c3: "Compile ((CHR ''/'' # L) @ ((''(?P<'' @ name @ ''>.+)'') @ (B @ [])))
      = Inr [map Lit (CHR ''/'' # L) @ Named name # map Lit B]"
    using Compile_lits [OF mL, of "(''(?P<'' @ name @ ''>.+)'') @ (B @ [])"] c2 by simp
  have c4: "Compile ((''(?P<'' @ ''path'' @ ''>.+)'') @ ((CHR ''/'' # L)
        @ ((''(?P<'' @ name @ ''>.+)'') @ (B @ []))))
      = Inr [Named ''path'' # map Lit (CHR ''/'' # L) @ Named name # map Lit B]"
    using Compile_group [OF valid_path, of "(CHR ''/'' # L) @ ((''(?P<'' @ name @ ''>.+)'') @ (B @ []))"]
      c3 by simp
  have c5: "Compile (''/'' @ (''(?P<'' @ ''path'' @ ''>.+)'') @ ((CHR ''/'' # L)
        @ ((''(?P<'' @ name @ ''>.+)'') @ (B @ []))))
      = Inr [Lit CHR ''/'' # Named ''path'' # map Lit (CHR ''/'' # L) @ Named name # map Lit B]"
    using Compile_slash [of "(''(?P<'' @ ''path'' @ ''>.+)'') @ ((CHR ''/'' # L)
        @ ((''(?P<'' @ name @ ''>.+)'') @ (B @ [])))"] c4 by simp
  from pat c5 show "\<exists>pat. pattern T = Inr pat \<and>
           Compile pat = Inr [Lit CHR ''/'' # Named ''path'' # map Lit (CHR ''/'' # L)
                                @ Named name # map Lit B]"
    by blast
qed

text \<open>
  Claim C1, as stated: for every template with a single placeholder \<open>{name}\<close> and a
  literal at index 1, every mount path and every non-empty value \<open>v\<close> without \<open>/\<close>,
  \<open>{\<close> and \<open>}\<close>, extracting from the rendered path gives \<open>v\<close> back under \<open>name\<close>.
  It fails for the empty mount path, whose rendered path \<open>//role/my-role\<close> leaves the
  group of the mount nothing to capture; for a value with a newline, which \<open>.\<close> does
  not match, so that the capture stops before it; and for a mount path with a newline.
\<close>

theorem round_trip_fails:
  "ParsePath [] ''/transform/role/{name}'' [''name'' \<mapsto> StringValue ''my-role''] = Inr ''//role/my-role''
   \<and> PathParameters ''/transform/role/{name}'' ''//role/my-role'' = Inl ParseError
   \<and> ParsePath ''transform'' ''/transform/role/{name}'' [''name'' \<mapsto> StringValue (''my'' @ [CHR 0x0A] @ ''role'')]
        = Inr (''/transform/role/my'' @ [CHR 0x0A] @ ''role'')
   \<and> PathParameters ''/transform/role/{name}'' (''/transform/role/my'' @ [CHR 0x0A] @ ''role'')
        = Inr [''path'' \<mapsto> ''transform'', ''name'' \<mapsto> ''my'']
   \<and> ParsePath (''a'' @ [CHR 0x0A] @ ''b'') ''/transform/role/{name}'' [''name'' \<mapsto> StringValue ''my-role'']
        = Inr (''/a'' @ [CHR 0x0A] @ ''b/role/my-role'')
   \<and> PathParameters ''/transform/role/{name}'' (''/a'' @ [CHR 0x0A] @ ''b/role/my-role'')
        = Inl ParseError"
proof (intro conjI)
  show "ParsePath [] ''/transform/role/{name}'' [''name'' \<mapsto> StringValue ''my-role''] = Inr ''//role/my-role''"
    by (simp add: ParsePath_def recomprise_def Split_def FieldsFunc_def isBrace_def GetOk_def
        ReplaceAll.simps)
  show "ParsePath ''transform'' ''/transform/role/{name}'' [''name'' \<mapsto> StringValue (''my'' @ [CHR 0x0A] @ ''role'')]
        = Inr (''/transform/role/my'' @ [CHR 0x0A] @ ''role'')"
    by (simp add: ParsePath_def recomprise_def Split_def FieldsFunc_def isBrace_def GetOk_def
        ReplaceAll.simps)
  show "ParsePath (''a'' @ [CHR 0x0A] @ ''b'') ''/transform/role/{name}'' [''name'' \<mapsto> StringValue ''my-role'']
        = Inr (''/a'' @ [CHR 0x0A] @ ''b/role/my-role'')"
    by (simp add: ParsePath_def recomprise_def Split_def FieldsFunc_def isBrace_def GetOk_def
        ReplaceAll.simps)
  show "PathParameters ''/transform/role/{name}'' ''//role/my-role'' = Inl ParseError"
    by (simp only: PathParameters_def pattern_role sum.case Compile_role)
       (simp add: SubexpNames_def dotRun_def eval_nat_numeral)
  show "PathParameters ''/transform/role/{name}'' (''/transform/role/my'' @ [CHR 0x0A] @ ''role'')
        = Inr [''path'' \<mapsto> ''transform'', ''name'' \<mapsto> ''my'']"
    by (simp only: PathParameters_def pattern_role sum.case Compile_role)
       (simp add: SubexpNames_def dotRun_def eval_nat_numeral)
  show "PathParameters ''/transform/role/{name}'' (''/a'' @ [CHR 0x0A] @ ''b/role/my-role'')
        = Inl ParseError"
    by (simp only: PathParameters_def pattern_role sum.case Compile_role)
       (simp add: SubexpNames_def dotRun_def eval_nat_numeral)
qed

text \<open>
  Claim C1, amended: let the template be \<open>/\<close>, a mount segment, and further segments
  separated by \<open>/\<close> that are literals of plain characters (ASCII, not special in the
  pattern syntax), but for one placeholder \<open>{name}\<close> whose name is made of letters, digits and
  underscores. For every mount path that is not empty and has no newline, and every
  value \<open>v\<close> that is not empty and has no \<open>/\<close>, \<open>{\<close>, \<open>}\<close> or newline, \<open>ParsePath\<close> with
  the lookup that maps \<open>name\<close> to the string \<open>v\<close> renders a path from which \<open>PathParameters\<close>
  extracts \<open>v\<close> under \<open>name\<close>.
\<close>

theorem round_trip:
  "isValidCaptureName name \<Longrightarrow>
   \<forall>seg \<in> set (pre @ post). isLiteral seg \<and> CHR ''/'' \<notin> set seg \<Longrightarrow>
   CHR ''/'' \<notin> set mountSeg \<Longrightarrow>
   T = Join ([] # mountSeg # pre @ [''{'' @ name @ ''}''] @ post) ''/'' \<Longrightarrow>
   mount \<noteq> [] \<Longrightarrow> CHR 0x0A \<notin> set mount \<Longrightarrow>
   v \<noteq> [] \<Longrightarrow> CHR ''/'' \<notin> set v \<Longrightarrow> braceFree v \<Longrightarrow> CHR 0x0A \<notin> set v \<Longrightarrow>
   \<exists>p m. ParsePath mount T [name \<mapsto> StringValue v] = Inr p \<and> PathParameters T p = Inr m \<and> m name = Some v"
proof -
  assume valid: "isValidCaptureName name"
    and lit: "\<forall>seg \<in> set (pre @ post). isLiteral seg \<and> CHR ''/'' \<notin> set seg"
    and ms: "CHR ''/'' \<notin> set mountSeg"
    and T: "T = Join ([] # mountSeg # pre @ [''{'' @ name @ ''}''] @ post) ''/''"
    and mount: "mount \<noteq> []" "CHR 0x0A \<notin> set mount"
    and v: "v \<noteq> []" "CHR ''/'' \<notin> set v" "braceFree v" "CHR 0x0A \<notin> set v"
  define L where "L = concat (map (\<lambda>seg. seg @ ''/'') pre)"
  define B where "B = concat (map ((@) ''/'') post)"
  note n = valid_name_chars [OF valid]
  from single_placeholder(1) [OF valid lit ms T L_def B_def, of mount]
    single_placeholder(2) [OF valid lit ms T L_def B_def]
  obtain pat where
    rec: "recomprise mount T = Inr (''/'' @ mount @ ''/'' @ L @ ''{'' @ name @ ''}'' @ B)"
    and pat: "pattern T = Inr pat"
      "Compile pat = Inr [Lit CHR ''/'' # Named ''path'' # map Lit (CHR ''/'' # L)
                            @ Named name # map Lit B]"
    by blast
  have "\<forall>c \<in> set L. isPlain c"
    using literal_text(1) [of pre] lit unfolding L_def by simp
  then have bL: "CHR ''{'' \<notin> set L" using not_meta_brace by blast
  have "\<forall>c \<in> set B. isPlain c"
    using literal_text(2) [of post] lit unfolding B_def by simp
  then have bB: "CHR ''{'' \<notin> set B" using not_meta_brace by blast
  have bv: "CHR ''{'' \<notin> set v" using v(3) by (simp add: braceFree_def)
  have "\<forall>c \<in> set name. \<not> isBrace c" using n(3,4) by (auto simp: isBrace_def)
  from fieldsFrom_placeholder [OF n(1) this, of "[]" "''/'' @ mount @ ''/'' @ L" B]
  have fld: "name \<in> set (FieldsFunc (''/'' @ mount @ ''/'' @ L @ ''{'' @ name @ ''}'' @ B) isBrace)"
    by (simp add: FieldsFunc_def)
  have d: "\<And>f. GetOk [name \<mapsto> StringValue v] f
      = (if f = name then Some (StringValue v) else None)"
    by (rule GetOk_singleton [OF v(1)])
  from loop_renders [OF bL bB n(5) v(1) bv v(4) d fld mount] obtain X' where
    X: "X' \<noteq> []" "CHR 0x0A \<notin> set X'"
    and lp: "ParsePath_loop [name \<mapsto> StringValue v]
               (FieldsFunc (''/'' @ mount @ ''/'' @ L @ ''{'' @ name @ ''}'' @ B) isBrace)
               (''/'' @ mount @ ''/'' @ L @ ''{'' @ name @ ''}'' @ B)
             = Inr (''/'' @ X' @ ''/'' @ L @ v @ B)"
    by blast
  have pp: "ParsePath mount T [name \<mapsto> StringValue v] = Inr (''/'' @ X' @ ''/'' @ L @ v @ B)"
    unfolding ParsePath_def rec sum.case lp ..
  from extract_rendered [OF X v(1,2,4) n(1), of L B] obtain m where
    "PathParameters_loop
       (enumerate 0 (SubexpNames
          [Lit CHR ''/'' # Named ''path'' # map Lit (CHR ''/'' # L) @ Named name # map Lit B]))
       (FindStringSubmatch
          [Lit CHR ''/'' # Named ''path'' # map Lit (CHR ''/'' # L) @ Named name # map Lit B]
          (CHR ''/'' # X' @ CHR ''/'' # L @ v @ B))
       Map.empty = Inr m" and mv: "m name = Some v"
    by blast
  then have "PathParameters T (''/'' @ X' @ ''/'' @ L @ v @ B) = Inr m"
    unfolding PathParameters_def pat sum.case by simp
  with pp mv show ?thesis by blast
qed

text \<open>The example template, with another mount path.\<close>

theorem round_trip_witness:
  "isValidCaptureName ''name'' \<and> isLiteral ''role''
   \<and> ''/transform/role/{name}'' = Join [[], ''transform'', ''role'', ''{name}''] ''/''
   \<and> braceFree ''my-role''
   \<and> (\<exists>p m. ParsePath ''secrets'' ''/transform/role/{name}'' [''name'' \<mapsto> StringValue ''my-role''] = Inr p
          \<and> PathParameters ''/transform/role/{name}'' p = Inr m \<and> m ''name'' = Some ''my-role'')"
proof -
  have 1: "isValidCaptureName ''name''"
    by (simp add: isValidCaptureName_def isalnum_def)
  have 2: "isLiteral ''role''"
    by (simp add: isLiteral_def isPlain_def isSpecial_def)
  then have 3: "\<forall>seg \<in> set ([''role''] @ []). isLiteral seg \<and> CHR ''/'' \<notin> set seg"
    by simp
  have 4: "''/transform/role/{name}'' = Join ([] # ''transform'' # [''role''] @ [''{'' @ ''name'' @ ''}''] @ []) ''/''"
    by simp
  have 5: "braceFree ''my-role''" by (simp add: braceFree_def)
  have 6: "CHR ''/'' \<notin> set ''transform''" "''secrets'' \<noteq> []" "CHR 0x0A \<notin> set ''secrets''"
    "''my-role'' \<noteq> []" "CHR ''/'' \<notin> set ''my-role''" "CHR 0x0A \<notin> set ''my-role''"
    by simp_all
  from round_trip [OF 1 3 6(1) 4 6(2,3,4,5) 5 6(6)]
  have "\<exists>p m. ParsePath ''secrets'' ''/transform/role/{name}'' [''name'' \<mapsto> StringValue ''my-role''] = Inr p
          \<and> PathParameters ''/transform/role/{name}'' p = Inr m \<and> m ''name'' = Some ''my-role''" .
  moreover have "''/transform/role/{name}'' = Join [[], ''transform'', ''role'', ''{name}''] ''/''"
    by simp
  ultimately show ?thesis using 1 2 5 by (intro conjI)
qed

section \<open>The renewal window of \<open>tokenCheckLease\<close>\<close>

lemma sint_five_minutes: "sint (Minute * 5) = 300000000000"
  by (simp add: Minute_def Second_def)

lemma sint_minus_five_minutes: "sint (Minute * (- 5)) = - 300000000000"
  by (simp add: Minute_def Second_def)

text \<open>
  Claim C10: with the clock read as one instant \<open>now\<close>, \<open>tokenCheckLease\<close> returns true
  exactly when \<open>lease_started\<close> is not empty, parses, and the expiry (start plus
  duration) is both at most and at least \<open>now\<close> minus five minutes, that is, equal to
  it. The renewal branch of \<open>tokenRead\<close> is reached at that instant only. For an empty
  or unparsable \<open>lease_started\<close> the answer is false.
\<close>

theorem tokenCheckLease_window:
  "(fst (tokenCheckLease parse now d) \<longleftrightarrow>
      lease_started d \<noteq> [] \<and>
      (\<exists>started. parse (lease_started d) = Some started \<and>
         started + sint (Second * lease_duration d) \<le> now - 300000000000 \<and>
         now - 300000000000 \<le> started + sint (Second * lease_duration d)))
   \<and> (fst (tokenCheckLease parse now d) \<longrightarrow>
        (\<exists>started. parse (lease_started d) = Some started \<and>
           started + sint (Second * lease_duration d) = now - 300000000000))
   \<and> (tokenRead_renews lookupFailed parse now d \<longrightarrow>
        (\<exists>started. parse (lease_started d) = Some started \<and>
           started + sint (Second * lease_duration d) = now - 300000000000))
   \<and> (lease_started d = [] \<or> parse (lease_started d) = None \<longrightarrow>
        \<not> fst (tokenCheckLease parse now d))"
  unfolding tokenCheckLease_def tokenRead_renews_def Add_def Let_def
    sint_five_minutes sint_minus_five_minutes
  by (auto split: option.splits)

text \<open>
  The window is not empty: a lease of one hour started at 2020-01-01T00:00:00Z is
  renewed by a read at 01:05:00 exactly.
\<close>

theorem tokenCheckLease_window_witness:
  "tokenRead_renews False
     (\<lambda>s. if s = ''2020-01-01T00:00:00Z'' then Some 1577836800000000000 else None)
     1577840700000000000
     \<lparr>lease_started = ''2020-01-01T00:00:00Z'', lease_duration = 3600\<rparr>
   \<and> (1577836800000000000::int) + sint (Second * (3600 :: 64 word))
       = 1577840700000000000 - 300000000000"
  using tokenCheckLease_window [of
     "\<lambda>s. if s = ''2020-01-01T00:00:00Z'' then Some 1577836800000000000 else None"
     1577840700000000000
     "\<lparr>lease_started = ''2020-01-01T00:00:00Z'', lease_duration = 3600\<rparr>" False]
  by (simp add: tokenRead_renews_def tokenCheckLease_def Add_def Second_def Minute_def)

end
